theory Spec2Isabelle
  imports Complex_Main "HOL-Library.Multiset"
begin

section \<open>Ranking metrics of \<open>cornac/metrics/ranking.py\<close>\<close>

text \<open>
  The module computes NDCG, NCRR, MRR, Precision, Recall, F-measure and AUC from numpy
  arrays. The embedding follows the source line by line:
  \<^item> an integer array (\<open>gt_pos\<close>, \<open>gt_neg\<close>, \<open>pd_rank\<close>) is an \<open>int list\<close>; Python and
    numpy integers are taken unbounded, fixed-width overflow of \<open>2 ** gt_pos\<close> is not
    modelled;
  \<^item> a floating-point value is a real number, extended by the three values a numpy
    division by zero produces (\<open>nan\<close>, \<open>inf\<close>, \<open>-inf\<close>); rounding is not modelled;
  \<^item> every exception numpy or the module raises is an \<open>error\<close> value (\<open>Inl\<close>).
\<close>

subsection \<open>Errors and numpy floats\<close>

datatype error = IndexError | ValueError | NotImplementedError

definition bind_res :: "error + 'a \<Rightarrow> ('a \<Rightarrow> error + 'b) \<Rightarrow> error + 'b" where
  "bind_res r f = (case r of Inl e \<Rightarrow> Inl e | Inr v \<Rightarrow> f v)"

datatype npfloat = Fin real | PInf | NInf | NaN

text \<open>True division of two finite numbers as numpy performs it on scalars and arrays:
  no exception, \<open>0/0\<close> is \<open>nan\<close> and \<open>x/0\<close> is an infinity of the sign of \<open>x\<close>.\<close>

definition np_div :: "real \<Rightarrow> real \<Rightarrow> npfloat" where
  "np_div a b =
     (if b \<noteq> 0 then Fin (a / b)
      else if a = 0 then NaN
      else if a > 0 then PInf else NInf)"

fun fadd :: "npfloat \<Rightarrow> npfloat \<Rightarrow> npfloat" where
  "fadd NaN _ = NaN"
| "fadd _ NaN = NaN"
| "fadd (Fin a) (Fin b) = Fin (a + b)"
| "fadd PInf NInf = NaN"
| "fadd NInf PInf = NaN"
| "fadd PInf _ = PInf"
| "fadd _ PInf = PInf"
| "fadd NInf _ = NInf"
| "fadd _ NInf = NInf"

definition inf_of_sign :: "bool \<Rightarrow> npfloat" where
  "inf_of_sign neg = (if neg then NInf else PInf)"

fun fmul :: "npfloat \<Rightarrow> npfloat \<Rightarrow> npfloat" where
  "fmul NaN _ = NaN"
| "fmul _ NaN = NaN"
| "fmul (Fin a) (Fin b) = Fin (a * b)"
| "fmul (Fin a) PInf = (if a = 0 then NaN else inf_of_sign (a < 0))"
| "fmul (Fin a) NInf = (if a = 0 then NaN else inf_of_sign (a > 0))"
| "fmul PInf (Fin b) = (if b = 0 then NaN else inf_of_sign (b < 0))"
| "fmul NInf (Fin b) = (if b = 0 then NaN else inf_of_sign (b > 0))"
| "fmul PInf PInf = PInf"
| "fmul NInf NInf = PInf"
| "fmul PInf NInf = NInf"
| "fmul NInf PInf = NInf"

fun fdiv :: "npfloat \<Rightarrow> npfloat \<Rightarrow> npfloat" where
  "fdiv NaN _ = NaN"
| "fdiv _ NaN = NaN"
| "fdiv (Fin a) (Fin b) = np_div a b"
| "fdiv (Fin a) _ = Fin 0"
| "fdiv PInf (Fin b) = inf_of_sign (b < 0)"
| "fdiv NInf (Fin b) = inf_of_sign (\<not> b < 0)"
| "fdiv _ _ = NaN"

text \<open>The comparison \<open>x > y\<close>; any comparison with \<open>nan\<close> is false.\<close>

fun fgt :: "npfloat \<Rightarrow> npfloat \<Rightarrow> bool" where
  "fgt NaN _ = False"
| "fgt _ NaN = False"
| "fgt (Fin a) (Fin b) = (a > b)"
| "fgt PInf PInf = False"
| "fgt PInf _ = True"
| "fgt _ PInf = False"
| "fgt NInf _ = False"
| "fgt _ NInf = True"

definition np_sum :: "npfloat list \<Rightarrow> npfloat" where
  "np_sum xs = foldl fadd (Fin 0) xs"

definition np_mean :: "npfloat list \<Rightarrow> npfloat" where
  "np_mean xs = fdiv (np_sum xs) (Fin (real (length xs)))"

subsection \<open>Array primitives\<close>

text \<open>An index into an axis of length \<open>n\<close>: negative indices count from the end, anything
  outside \<open>-n \<le> i < n\<close> raises \<open>IndexError\<close>.\<close>

definition np_index :: "nat \<Rightarrow> int \<Rightarrow> error + nat" where
  "np_index n i =
     (if 0 \<le> i \<and> i < int n then Inr (nat i)
      else if - int n \<le> i \<and> i < 0 then Inr (nat (i + int n))
      else Inl IndexError)"

text \<open>\<open>np.take(a, indices)\<close>.\<close>

fun np_take :: "'a list \<Rightarrow> int list \<Rightarrow> error + 'a list" where
  "np_take a [] = Inr []"
| "np_take a (i # is) =
     bind_res (np_index (length a) i) (\<lambda>j.
     bind_res (np_take a is) (\<lambda>ys. Inr (a ! j # ys)))"

text \<open>\<open>a[indices] = v\<close> on a copy of \<open>a\<close>.\<close>

fun np_put :: "'a list \<Rightarrow> int list \<Rightarrow> 'a \<Rightarrow> error + 'a list" where
  "np_put a [] v = Inr a"
| "np_put a (i # is) v =
     bind_res (np_index (length a) i) (\<lambda>j. np_put (a[j := v]) is v)"

text \<open>\<open>np.nonzero(mask)[0]\<close>, also \<open>np.where(mask)[0]\<close>: the positions of the true entries.\<close>

definition np_nonzero :: "bool list \<Rightarrow> nat list" where
  "np_nonzero msk = filter (\<lambda>i. msk ! i) [0..<length msk]"

text \<open>\<open>np.in1d(ar1, ar2)\<close>: for each element of \<open>ar1\<close>, whether its value occurs in \<open>ar2\<close>.\<close>

definition np_in1d :: "int list \<Rightarrow> int list \<Rightarrow> bool list" where
  "np_in1d ar1 ar2 = map (\<lambda>x. x \<in> set ar2) ar1"

text \<open>\<open>a[mask]\<close> with a boolean mask, which must have the length of \<open>a\<close>.\<close>

definition np_mask_select :: "'a list \<Rightarrow> bool list \<Rightarrow> error + 'a list" where
  "np_mask_select a msk =
     (if length msk \<noteq> length a then Inl IndexError
      else Inr (map (\<lambda>i. a ! i) (np_nonzero msk)))"

text \<open>\<open>np.argsort(a)\<close>: indices that sort \<open>a\<close> ascending. numpy's default sort is not
  stable, so the order among equal keys is not fixed by numpy; the model takes the stable
  order, and the results below that use it are shown not to depend on that choice.\<close>

definition np_argsort :: "int list \<Rightarrow> nat list" where
  "np_argsort a = sort_key (\<lambda>i. a ! i) [0..<length a]"

text \<open>\<open>2 ** a\<close> on an integer array: a negative exponent raises \<open>ValueError\<close>.\<close>

definition np_pow2 :: "int list \<Rightarrow> error + int list" where
  "np_pow2 a =
     (if \<exists>x \<in> set a. x < 0 then Inl ValueError
      else Inr (map (\<lambda>x. 2 ^ nat x) a))"

subsection \<open>The metric classes\<close>

fun str_nat :: "nat \<Rightarrow> string" where
  "str_nat n =
     (if n < 10 then [char_of (n + 48)]
      else str_nat (n div 10) @ [char_of (n mod 10 + 48)])"

definition str_int :: "int \<Rightarrow> string" where
  "str_int i = (if i < 0 then CHR ''-'' # str_nat (nat (- i)) else str_nat (nat i))"

record RankingMetric =
  type :: string
  name :: "string option"
  k :: int

definition RankingMetric_init :: "string option \<Rightarrow> int \<Rightarrow> RankingMetric" where
  "RankingMetric_init nm kk = \<lparr>type = ''ranking'', name = nm, k = kk\<rparr>"

text \<open>The base class leaves \<open>compute\<close> to its subclasses.\<close>

definition RankingMetric_compute :: "RankingMetric \<Rightarrow> error + npfloat" where
  "RankingMetric_compute self = Inl NotImplementedError"

subsection \<open>MRR\<close>

definition MRR_init :: RankingMetric where
  "MRR_init = RankingMetric_init (Some ''MRR'') (- 1)"

text \<open>The item ids \<open>np.nonzero(gt_pos > 0)\<close>.\<close>

definition gt_pos_items :: "int list \<Rightarrow> int list" where
  "gt_pos_items gt_pos = map int (np_nonzero (map (\<lambda>g. g > 0) gt_pos))"

definition MRR_compute :: "RankingMetric \<Rightarrow> int list \<Rightarrow> int list \<Rightarrow> error + npfloat" where
  "MRR_compute self gt_pos pd_rank =
     (let matched_items = np_nonzero (np_in1d pd_rank (gt_pos_items gt_pos))
      in if length matched_items = 0 then Inl ValueError
         else Inr (np_div 1 (real (matched_items ! 0 + 1))))"

subsection \<open>NDCG\<close>

definition NDCG_init :: "int \<Rightarrow> RankingMetric" where
  "NDCG_init kk = RankingMetric_init (Some (''NDCG@'' @ str_int kk)) kk"

text \<open>\<open>NDCG.dcg_score\<close>. The discounts \<open>log2(i + 2)\<close> are at least 1, so the element-wise
  division is an ordinary one.\<close>

definition dcg_score :: "int list \<Rightarrow> int list \<Rightarrow> int \<Rightarrow> error + real" where
  "dcg_score gt_pos pd_rank kk =
     (let pd_rank = (if kk > 0 then take (nat kk) pd_rank else pd_rank)
      in bind_res (np_take gt_pos pd_rank) (\<lambda>gt_pos.
         bind_res (np_pow2 gt_pos) (\<lambda>pw.
           let gain = map (\<lambda>x. x - 1) pw;
               discounts = map (\<lambda>i. log 2 (real (i + 2))) [0..<length gt_pos]
           in Inr (sum_list (map2 (\<lambda>g d. real_of_int g / d) gain discounts)))))"

definition NDCG_compute :: "RankingMetric \<Rightarrow> int list \<Rightarrow> int list \<Rightarrow> error + npfloat" where
  "NDCG_compute self gt_pos pd_rank =
     bind_res (dcg_score gt_pos pd_rank (k self)) (\<lambda>dcg.
     bind_res (dcg_score gt_pos (map int (rev (np_argsort gt_pos))) (k self)) (\<lambda>idcg.
       Inr (np_div dcg idcg)))"

subsection \<open>NCRR\<close>

definition NCRR_init :: "int \<Rightarrow> RankingMetric" where
  "NCRR_init kk = RankingMetric_init (Some (''NCRR@'' @ str_int kk)) kk"

definition NCRR_compute :: "RankingMetric \<Rightarrow> int list \<Rightarrow> int list \<Rightarrow> npfloat" where
  "NCRR_compute self gt_pos pd_rank =
     (let items = gt_pos_items gt_pos;
          ideal_rank = map (\<lambda>i. i + 1) [0..<length items];
          icrr = sum_list (map (\<lambda>r. 1 / real r) ideal_rank);
          rec_rank = map (\<lambda>i. i + 1) (np_nonzero (np_in1d pd_rank items));
          crr = sum_list (map (\<lambda>r. 1 / real r) rec_rank)
      in np_div crr icrr)"

subsection \<open>MeasureAtK and the metrics derived from it\<close>

definition MeasureAtK_init :: "string option \<Rightarrow> int \<Rightarrow> RankingMetric" where
  "MeasureAtK_init nm kk = RankingMetric_init nm kk"

definition MeasureAtK_compute ::
    "RankingMetric \<Rightarrow> int list \<Rightarrow> int list \<Rightarrow> error + (int \<times> int \<times> int)" where
  "MeasureAtK_compute self gt_pos pd_rank =
     (let pd_rank = (if k self > 0 then take (nat (k self)) pd_rank else pd_rank)
      in bind_res (np_put (replicate (length gt_pos) 0) pd_rank 1) (\<lambda>pred.
           let tp = sum_list (map2 (\<lambda>p g. p * g) pred gt_pos);
               tp_fn = sum_list gt_pos;
               tp_fp = sum_list pred
           in Inr (tp, tp_fn, tp_fp)))"

definition Precision_init :: "int \<Rightarrow> RankingMetric" where
  "Precision_init kk = MeasureAtK_init (Some (''Precision@'' @ str_int kk)) kk"

definition Precision_compute :: "RankingMetric \<Rightarrow> int list \<Rightarrow> int list \<Rightarrow> error + npfloat" where
  "Precision_compute self gt_pos pd_rank =
     bind_res (MeasureAtK_compute self gt_pos pd_rank) (\<lambda>(tp, tp_fn, tp_fp).
       Inr (np_div (real_of_int tp) (real_of_int tp_fp)))"

definition Recall_init :: "int \<Rightarrow> RankingMetric" where
  "Recall_init kk = MeasureAtK_init (Some (''Recall@'' @ str_int kk)) kk"

definition Recall_compute :: "RankingMetric \<Rightarrow> int list \<Rightarrow> int list \<Rightarrow> error + npfloat" where
  "Recall_compute self gt_pos pd_rank =
     bind_res (MeasureAtK_compute self gt_pos pd_rank) (\<lambda>(tp, tp_fn, tp_fp).
       Inr (np_div (real_of_int tp) (real_of_int tp_fn)))"

definition FMeasure_init :: "int \<Rightarrow> RankingMetric" where
  "FMeasure_init kk = MeasureAtK_init (Some (''F1@'' @ str_int kk)) kk"

definition FMeasure_compute :: "RankingMetric \<Rightarrow> int list \<Rightarrow> int list \<Rightarrow> error + npfloat" where
  "FMeasure_compute self gt_pos pd_rank =
     bind_res (MeasureAtK_compute self gt_pos pd_rank) (\<lambda>(tp, tp_fn, tp_fp).
       let prec = np_div (real_of_int tp) (real_of_int tp_fp);
           rec = np_div (real_of_int tp) (real_of_int tp_fn)
       in if fgt (fadd prec rec) (Fin 0)
          then Inr (fdiv (fmul (Fin 2) (fmul prec rec)) (fadd prec rec))
          else Inr (Fin 0))"

subsection \<open>AUC\<close>

definition AUC_init :: RankingMetric where
  "AUC_init = RankingMetric_init (Some ''AUC'') (- 1)"

text \<open>\<open>gt_pos.astype(bool)\<close> is true at every nonzero entry. The loop over \<open>pos_scores\<close>
  appends one quotient per positive score; \<open>np.sum(pos_score > neg_scores)\<close> counts the
  negative scores strictly below it.\<close>

definition AUC_compute ::
    "RankingMetric \<Rightarrow> real list \<Rightarrow> int list \<Rightarrow> int list \<Rightarrow> error + npfloat" where
  "AUC_compute self pd_scores gt_pos gt_neg =
     bind_res (np_mask_select pd_scores (map (\<lambda>g. g \<noteq> 0) gt_pos)) (\<lambda>pos_scores.
     bind_res (np_mask_select pd_scores (map (\<lambda>g. g \<noteq> 0) gt_neg)) (\<lambda>neg_scores.
       let auc = map (\<lambda>pos_score.
                   np_div (real (length (filter (\<lambda>n. pos_score > n) neg_scores)))
                          (real (length neg_scores))) pos_scores
       in Inr (np_mean auc)))"

section \<open>Notions of the specification\<close>

text \<open>The positive set of a relevance vector: the item ids \<open>i\<close> with \<open>gt_pos[i] > 0\<close>.\<close>

definition positive_set :: "int list \<Rightarrow> int set" where
  "positive_set gt_pos = {i. 0 \<le> i \<and> i < int (length gt_pos) \<and> gt_pos ! nat i > 0}"

text \<open>Python's index rule on an axis of length \<open>n\<close>: the admissible indices and the
  position an admissible index denotes.\<close>

definition valid_index :: "nat \<Rightarrow> int \<Rightarrow> bool" where
  "valid_index n i \<longleftrightarrow> - int n \<le> i \<and> i < int n"

definition norm_index :: "nat \<Rightarrow> int \<Rightarrow> nat" where
  "norm_index n i = nat (if i < 0 then i + int n else i)"

text \<open>A binary vector, as the docstrings describe \<open>gt_pos\<close>.\<close>

definition binary :: "int list \<Rightarrow> bool" where
  "binary gt_pos \<longleftrightarrow> (\<forall>g \<in> set gt_pos. g = 0 \<or> g = 1)"

text \<open>Top-K truncation: the first \<open>k\<close> entries when \<open>k > 0\<close>, the whole list otherwise.\<close>

definition top_k :: "int \<Rightarrow> 'a list \<Rightarrow> 'a list" where
  "top_k kk xs = (if kk > 0 then take (nat kk) xs else xs)"

text \<open>The items a mask selects: \<open>mask.astype(bool)\<close> is true at the nonzero entries.\<close>

definition mask_items :: "int list \<Rightarrow> nat set" where
  "mask_items m = {i. i < length m \<and> m ! i \<noteq> 0}"

text \<open>\<open>gt_pos[x]\<close> under Python's index rule.\<close>

definition item_at :: "int list \<Rightarrow> int \<Rightarrow> int" where
  "item_at gt_pos x = gt_pos ! norm_index (length gt_pos) x"

text \<open>An ideal ranking of \<open>gt_pos\<close>: every item id once, relevance non-increasing.\<close>

definition is_ideal_ranking :: "int list \<Rightarrow> int list \<Rightarrow> bool" where
  "is_ideal_ranking gt_pos r \<longleftrightarrow>
     mset r = mset (map int [0..<length gt_pos])
     \<and> sorted_wrt (\<lambda>a b. a \<ge> b) (map (\<lambda>x. gt_pos ! nat x) r)"

text \<open>The discounted cumulative gain of a sequence of relevance grades.\<close>

definition dcg_of :: "int list \<Rightarrow> real" where
  "dcg_of rels = (\<Sum>i<length rels. (2 ^ nat (rels ! i) - 1) / log 2 (real i + 2))"

text \<open>A rank that lists every item id exactly once.\<close>

definition lists_every_item_once :: "int list \<Rightarrow> int list \<Rightarrow> bool" where
  "lists_every_item_once gt_pos pd_rank \<longleftrightarrow> mset pd_rank = mset (map int [0..<length gt_pos])"

text \<open>A rank that places all relevant items before all irrelevant ones.\<close>

definition relevant_first :: "int list \<Rightarrow> int list \<Rightarrow> bool" where
  "relevant_first gt_pos pd_rank \<longleftrightarrow>
     (\<forall>i j. i < j \<and> j < length pd_rank \<and> pd_rank ! j \<in> positive_set gt_pos
            \<longrightarrow> pd_rank ! i \<in> positive_set gt_pos)"

text \<open>The 0-indexed positions of a rank that hold a positive item.\<close>

definition matched_positions :: "int list \<Rightarrow> int list \<Rightarrow> nat set" where
  "matched_positions gt_pos pd_rank = {p. p < length pd_rank \<and> pd_rank ! p \<in> positive_set gt_pos}"

text \<open>The weight \<open>1 / log2 (i + 2)\<close> of position \<open>i\<close> in a DCG.\<close>

definition inv_discount :: "nat \<Rightarrow> real" where
  "inv_discount i = 1 / log 2 (real i + 2)"

text \<open>A result that is a number of the closed interval from 0 to 1.\<close>

definition in_unit :: "error + npfloat \<Rightarrow> bool" where
  "in_unit r = (case r of Inr (Fin v) \<Rightarrow> 0 \<le> v \<and> v \<le> 1 | _ \<Rightarrow> False)"

text \<open>A rank of pairwise distinct item ids of \<open>gt_pos\<close>.\<close>

definition item_ranking :: "int list \<Rightarrow> int list \<Rightarrow> bool" where
  "item_ranking gt_pos pd_rank \<longleftrightarrow>
     distinct pd_rank \<and> (\<forall>x \<in> set pd_rank. 0 \<le> x \<and> x < int (length gt_pos))"

section \<open>Properties\<close>

subsection \<open>Array primitives\<close>

lemma set_gt_pos_items: "set (gt_pos_items gt) = positive_set gt"
proof (intro set_eqI iffI)
  fix x assume "x \<in> set (gt_pos_items gt)"
  then show "x \<in> positive_set gt"
    by (auto simp: gt_pos_items_def np_nonzero_def positive_set_def)
next
  fix x assume "x \<in> positive_set gt"
  then have "nat x < length gt" "gt ! nat x > 0" and x: "x = int (nat x)"
    by (auto simp: positive_set_def)
  then have "nat x \<in> set (np_nonzero (map (\<lambda>g. g > 0) gt))"
    by (simp add: np_nonzero_def)
  then have "int (nat x) \<in> int ` set (np_nonzero (map (\<lambda>g. g > 0) gt))"
    by (rule imageI)
  then show "x \<in> set (gt_pos_items gt)"
    unfolding gt_pos_items_def using x by (metis set_map)
qed

lemma np_nonzero_in1d:
  "np_nonzero (np_in1d pd items) = filter (\<lambda>p. pd ! p \<in> set items) [0..<length pd]"
  unfolding np_nonzero_def np_in1d_def
  by (rule filter_cong) auto

lemma filter_upt_first:
  assumes "p < n" "P p" "\<forall>q<p. \<not> P q"
  shows "filter P [0..<n] = p # filter P [Suc p..<n]"
proof -
  have "[0..<n] = [0..<p] @ p # [Suc p..<n]"
    using assms(1)
    by (metis less_imp_le_nat upt_add_eq_append upt_conv_Cons zero_le le_add_diff_inverse)
  moreover have "filter P [0..<p] = []"
    using assms(3) by (auto simp: filter_empty_conv)
  ultimately show ?thesis
    using assms(2) by simp
qed

subsection \<open>MRR\<close>

text \<open>
  Claim C1. \<open>MRR.compute\<close> raises the invalid-input error (\<open>ValueError\<close>) exactly when no
  item of \<open>pd_rank\<close> is in the positive set, and it raises no other error; when \<open>p\<close> is
  the smallest 0-indexed position of \<open>pd_rank\<close> holding a positive item, it returns
  \<open>1 / (p + 1)\<close>.
\<close>

theorem MRR_compute_spec:
  "(MRR_compute self gt_pos pd_rank = Inl ValueError
      \<longleftrightarrow> set pd_rank \<inter> positive_set gt_pos = {})
   \<and> (isl (MRR_compute self gt_pos pd_rank)
      \<longleftrightarrow> set pd_rank \<inter> positive_set gt_pos = {})
   \<and> (\<forall>p. p < length pd_rank \<and> pd_rank ! p \<in> positive_set gt_pos
           \<and> (\<forall>q<p. pd_rank ! q \<notin> positive_set gt_pos)
        \<longrightarrow> MRR_compute self gt_pos pd_rank = Inr (Fin (1 / (real p + 1))))"
proof -
  let ?m = "filter (\<lambda>p. pd_rank ! p \<in> positive_set gt_pos) [0..<length pd_rank]"
  have m: "np_nonzero (np_in1d pd_rank (gt_pos_items gt_pos)) = ?m"
    by (simp add: np_nonzero_in1d set_gt_pos_items)
  have empty: "?m = [] \<longleftrightarrow> set pd_rank \<inter> positive_set gt_pos = {}"
    by (fastforce simp: filter_empty_conv in_set_conv_nth)
  have a: "MRR_compute self gt_pos pd_rank = Inl ValueError \<longleftrightarrow> ?m = []"
    unfolding MRR_compute_def m by (simp add: Let_def)
  have b: "isl (MRR_compute self gt_pos pd_rank) \<longleftrightarrow> ?m = []"
    unfolding MRR_compute_def m by (simp add: Let_def)
  have c: "MRR_compute self gt_pos pd_rank = Inr (Fin (1 / (real p + 1)))"
    if "p < length pd_rank" "pd_rank ! p \<in> positive_set gt_pos"
       "\<forall>q<p. pd_rank ! q \<notin> positive_set gt_pos" for p
  proof -
    have "?m = p # filter (\<lambda>p. pd_rank ! p \<in> positive_set gt_pos) [Suc p..<length pd_rank]"
      using that by (intro filter_upt_first) auto
    then show ?thesis
      unfolding MRR_compute_def m by (simp add: Let_def np_div_def add.commute)
  qed
  show ?thesis
    using a b c empty by blast
qed

theorem MRR_compute_spec_witness:
  "MRR_compute MRR_init [0, 0, 1, 1] [1, 3, 2] = Inr (Fin (1 / 2))
   \<and> MRR_compute MRR_init [0, 0, 1, 1] [1, 0, 7] = Inl ValueError"
proof -
  have pos: "positive_set [0, 0, 1, 1] = {2, 3}"
    by (auto simp: positive_set_def nth_Cons' nat_eq_iff split: if_splits)
  have "MRR_compute MRR_init [0, 0, 1, 1] [1, 3, 2] = Inr (Fin (1 / (real 1 + 1)))"
    by (rule MRR_compute_spec [of MRR_init "[0, 0, 1, 1]" "[1, 3, 2]",
          THEN conjunct2, THEN conjunct2, rule_format, of 1])
       (simp add: pos)
  moreover have "MRR_compute MRR_init [0, 0, 1, 1] [1, 0, 7] = Inl ValueError"
    using MRR_compute_spec [of MRR_init "[0, 0, 1, 1]" "[1, 0, 7]"]
    by (simp add: pos)
  ultimately show ?thesis
    by simp
qed

subsection \<open>MeasureAtK, Precision, Recall, F-measure\<close>

lemma np_index_valid: "valid_index n i \<Longrightarrow> np_index n i = Inr (norm_index n i)"
  by (auto simp: valid_index_def np_index_def norm_index_def)

lemma np_index_invalid: "\<not> valid_index n i \<Longrightarrow> np_index n i = Inl IndexError"
  by (auto simp: valid_index_def np_index_def)

lemma norm_index_less: "valid_index n i \<Longrightarrow> norm_index n i < n"
  by (auto simp: valid_index_def norm_index_def)

lemma np_put_valid:
  "\<forall>x \<in> set is. valid_index (length a) x \<Longrightarrow>
   np_put a is v =
     Inr (map (\<lambda>j. if j \<in> norm_index (length a) ` set is then v else a ! j) [0..<length a])"
proof (induction "is" arbitrary: a)
  case Nil
  then show ?case by (simp add: map_nth)
next
  case (Cons i "is")
  let ?j = "norm_index (length a) i"
  have j: "?j < length a" using Cons.prems by (simp add: norm_index_less)
  have "np_put a (i # is) v = np_put (a[?j := v]) is v"
    using Cons.prems by (simp add: np_index_valid bind_res_def)
  also have "\<dots> = Inr (map (\<lambda>j. if j \<in> norm_index (length a) ` set is then v else a[?j := v] ! j)
                        [0..<length a])"
    using Cons.IH [of "a[?j := v]"] Cons.prems by simp
  also have "\<dots> = Inr (map (\<lambda>j. if j \<in> norm_index (length a) ` set (i # is) then v else a ! j)
                        [0..<length a])"
    by (auto simp: nth_list_update)
  finally show ?case .
qed

lemma np_put_invalid:
  "\<exists>x \<in> set is. \<not> valid_index (length a) x \<Longrightarrow> np_put a is v = Inl IndexError"
proof (induction "is" arbitrary: a)
  case Nil
  then show ?case by simp
next
  case (Cons i "is")
  show ?case
  proof (cases "valid_index (length a) i")
    case True
    then have "\<exists>x \<in> set is. \<not> valid_index (length (a[norm_index (length a) i := v])) x"
      using Cons.prems by auto
    from Cons.IH [OF this] True show ?thesis
      by (simp add: np_index_valid bind_res_def)
  next
    case False
    then show ?thesis by (simp add: np_index_invalid bind_res_def)
  qed
qed

lemma sum_list_indicator:
  assumes "I \<subseteq> {..<n}"
  shows "sum_list (map (\<lambda>j. if j \<in> I then f j else (0::int)) [0..<n]) = sum f I"
proof -
  have "sum_list (map (\<lambda>j. if j \<in> I then f j else 0) [0..<n])
        = (\<Sum>j \<in> {0..<n}. if j \<in> I then f j else 0)"
    by (simp add: interv_sum_list_conv_sum_set_nat)
  also have "\<dots> = sum f ({0..<n} \<inter> I)"
    by (simp add: sum.inter_restrict)
  also have "{0..<n} \<inter> I = I" using assms by auto
  finally show ?thesis .
qed

lemma map2_upt_nth:
  "map2 f (map g [0..<length ys]) ys = map (\<lambda>j. f (g j) (ys ! j)) [0..<length ys]"
  by (rule nth_equalityI) auto

lemma MeasureAtK_compute_valid:
  assumes "\<forall>x \<in> set (top_k (k self) pd_rank). valid_index (length gt_pos) x"
  defines "I \<equiv> norm_index (length gt_pos) ` set (top_k (k self) pd_rank)"
  shows "MeasureAtK_compute self gt_pos pd_rank
           = Inr (\<Sum>j \<in> I. gt_pos ! j, sum_list gt_pos, int (card I))"
proof -
  let ?n = "length gt_pos"
  have sub: "I \<subseteq> {..<?n}"
    using assms(1) unfolding I_def by (auto simp: norm_index_less)
  have put: "np_put (replicate ?n 0) (top_k (k self) pd_rank) 1
             = Inr (map (\<lambda>j. if j \<in> I then 1 else (0::int)) [0..<?n])"
    using np_put_valid [of "top_k (k self) pd_rank" "replicate ?n (0::int)" 1] assms(1)
    unfolding I_def by (auto simp: )
  have tp: "sum_list (map2 (\<lambda>p g. p * g) (map (\<lambda>j. if j \<in> I then 1 else (0::int)) [0..<?n]) gt_pos)
            = (\<Sum>j \<in> I. gt_pos ! j)"
  proof -
    have "map2 (\<lambda>p g. p * g) (map (\<lambda>j. if j \<in> I then 1 else (0::int)) [0..<?n]) gt_pos
          = map (\<lambda>j. if j \<in> I then gt_pos ! j else 0) [0..<?n]"
      unfolding map2_upt_nth by (rule map_cong) auto
    then show ?thesis using sum_list_indicator [OF sub] by simp
  qed
  have fp: "sum_list (map (\<lambda>j. if j \<in> I then 1 else (0::int)) [0..<?n]) = int (card I)"
    using sum_list_indicator [OF sub, of "\<lambda>_. 1"] by simp
  show ?thesis
    unfolding MeasureAtK_compute_def Let_def top_k_def [symmetric] put bind_res_def
    by (simp add: tp fp)
qed

lemma MeasureAtK_compute_invalid:
  assumes "\<exists>x \<in> set (top_k (k self) pd_rank). \<not> valid_index (length gt_pos) x"
  shows "MeasureAtK_compute self gt_pos pd_rank = Inl IndexError"
  using np_put_invalid [of "top_k (k self) pd_rank" "replicate (length gt_pos) (0::int)" 1] assms
  unfolding MeasureAtK_compute_def Let_def top_k_def [symmetric]
  by (simp add: bind_res_def)

lemma binary_nth: "binary gt \<Longrightarrow> j < length gt \<Longrightarrow> gt ! j = 0 \<or> gt ! j = 1"
  by (auto simp: binary_def)

lemma binary_sum_card:
  assumes "binary gt" "I \<subseteq> {..<length gt}"
  shows "(\<Sum>j \<in> I. gt ! j) = int (card {j \<in> I. gt ! j > 0})"
proof -
  have fin: "finite I" using assms(2) finite_subset by blast
  have "(\<Sum>j \<in> I. gt ! j) = (\<Sum>j \<in> I. if gt ! j > 0 then 1 else 0)"
  proof (rule sum.cong)
    fix j assume "j \<in> I"
    then have "j < length gt" using assms(2) by auto
    from binary_nth [OF assms(1) this] show "gt ! j = (if gt ! j > 0 then 1 else 0)" by auto
  qed simp
  also have "\<dots> = int (card {j \<in> I. gt ! j > 0})"
    using fin by (simp add: sum.If_cases Int_def)
  finally show ?thesis .
qed

lemma sum_list_sum_upt: "sum_list (gt :: int list) = (\<Sum>j \<in> {..<length gt}. gt ! j)"
  by (simp add: sum_list_sum_nth atLeast0LessThan)

lemma binary_sum_list_card:
  assumes "binary gt"
  shows "sum_list gt = int (card {j. j < length gt \<and> gt ! j > 0})"
  using binary_sum_card [OF assms, of "{..<length gt}"]
  by (simp add: sum_list_sum_upt)




lemma MeasureAtK_compute_InrE:
  assumes "MeasureAtK_compute self gt_pos pd_rank = Inr (tp, tp_fn, tp_fp)"
  obtains I where "I \<subseteq> {..<length gt_pos}"
    and "I = norm_index (length gt_pos) ` set (top_k (k self) pd_rank)"
    and "\<forall>x \<in> set (top_k (k self) pd_rank). valid_index (length gt_pos) x"
    and "tp = (\<Sum>j \<in> I. gt_pos ! j)" and "tp_fn = sum_list gt_pos" and "tp_fp = int (card I)"
proof -
  have valid: "\<forall>x \<in> set (top_k (k self) pd_rank). valid_index (length gt_pos) x"
  proof (rule ccontr)
    assume "\<not> ?thesis"
    then have "MeasureAtK_compute self gt_pos pd_rank = Inl IndexError"
      by (intro MeasureAtK_compute_invalid) blast
    with assms show False by simp
  qed
  let ?I = "norm_index (length gt_pos) ` set (top_k (k self) pd_rank)"
  have "?I \<subseteq> {..<length gt_pos}"
    using valid by (auto simp: norm_index_less)
  moreover have "tp = (\<Sum>j \<in> ?I. gt_pos ! j) \<and> tp_fn = sum_list gt_pos \<and> tp_fp = int (card ?I)"
    using MeasureAtK_compute_valid [OF valid] assms by simp
  ultimately show ?thesis using that valid by blast
qed

lemma MeasureAtK_tp_zero:
  assumes "MeasureAtK_compute self gt_pos pd_rank = Inr (tp, tp_fn, tp_fp)" "tp_fp = 0"
  shows "tp = 0"
proof -
  from assms(1) obtain I where I: "I \<subseteq> {..<length gt_pos}"
    "tp = (\<Sum>j \<in> I. gt_pos ! j)" "tp_fp = int (card I)"
    by (rule MeasureAtK_compute_InrE)
  have "finite I" using I(1) finite_subset by blast
  then have "I = {}" using I(3) assms(2) by simp
  then show ?thesis using I(2) by simp
qed

text \<open>
  Claim C5. From the triple \<open>(tp, tp_fn, tp_fp)\<close> of \<open>MeasureAtK.compute\<close>, \<open>FMeasure.compute\<close>
  returns \<open>2 * (P * R) / (P + R)\<close> for \<open>P = tp / tp_fp\<close> and \<open>R = tp / tp_fn\<close> when \<open>P + R > 0\<close>
  and 0 otherwise, the comparison being false on \<open>nan\<close>; it returns exactly 0 whenever
  \<open>tp = 0\<close>, as for \<open>gt_pos = [1,0]\<close>, \<open>pd_rank = [1]\<close>, \<open>k = 1\<close> with the triple \<open>(0, 1, 1)\<close>. It
  raises only what \<open>MeasureAtK.compute\<close> raises.
\<close>

theorem FMeasure_compute_spec:
  "(\<forall>tp tp_fn tp_fp. MeasureAtK_compute self gt_pos pd_rank = Inr (tp, tp_fn, tp_fp) \<longrightarrow>
      (let P = np_div (real_of_int tp) (real_of_int tp_fp);
           R = np_div (real_of_int tp) (real_of_int tp_fn)
       in FMeasure_compute self gt_pos pd_rank
            = Inr (if fgt (fadd P R) (Fin 0)
                   then fdiv (fmul (Fin 2) (fmul P R)) (fadd P R) else Fin 0))
      \<and> (tp_fp \<noteq> 0 \<and> tp_fn \<noteq> 0 \<longrightarrow>
           (let P = real_of_int tp / real_of_int tp_fp;
                R = real_of_int tp / real_of_int tp_fn
            in FMeasure_compute self gt_pos pd_rank
                 = Inr (Fin (if P + R > 0 then 2 * (P * R) / (P + R) else 0))))
      \<and> (tp = 0 \<longrightarrow> FMeasure_compute self gt_pos pd_rank = Inr (Fin 0)))
   \<and> (\<forall>e. MeasureAtK_compute self gt_pos pd_rank = Inl e
        \<longrightarrow> FMeasure_compute self gt_pos pd_rank = Inl e)
   \<and> MeasureAtK_compute (FMeasure_init 1) [1, 0] [1] = Inr (0, 1, 1)
   \<and> FMeasure_compute (FMeasure_init 1) [1, 0] [1] = Inr (Fin 0)"
proof -
  have r: "(let P = np_div (real_of_int tp) (real_of_int tp_fp);
              R = np_div (real_of_int tp) (real_of_int tp_fn)
          in FMeasure_compute self gt_pos pd_rank
               = Inr (if fgt (fadd P R) (Fin 0)
                      then fdiv (fmul (Fin 2) (fmul P R)) (fadd P R) else Fin 0))
     \<and> (tp_fp \<noteq> 0 \<and> tp_fn \<noteq> 0 \<longrightarrow>
          (let P = real_of_int tp / real_of_int tp_fp;
               R = real_of_int tp / real_of_int tp_fn
           in FMeasure_compute self gt_pos pd_rank
                = Inr (Fin (if P + R > 0 then 2 * (P * R) / (P + R) else 0))))
     \<and> (tp = 0 \<longrightarrow> FMeasure_compute self gt_pos pd_rank = Inr (Fin 0))"
    if m: "MeasureAtK_compute self gt_pos pd_rank = Inr (tp, tp_fn, tp_fp)" for tp tp_fn tp_fp
  proof -
    have a: "FMeasure_compute self gt_pos pd_rank
               = (let P = np_div (real_of_int tp) (real_of_int tp_fp);
                      R = np_div (real_of_int tp) (real_of_int tp_fn)
                  in Inr (if fgt (fadd P R) (Fin 0)
                          then fdiv (fmul (Fin 2) (fmul P R)) (fadd P R) else Fin 0))"
      unfolding FMeasure_compute_def m bind_res_def by (simp add: Let_def)
    have b: "FMeasure_compute self gt_pos pd_rank
               = Inr (Fin (if real_of_int tp / real_of_int tp_fp + real_of_int tp / real_of_int tp_fn > 0
                           then 2 * (real_of_int tp / real_of_int tp_fp * (real_of_int tp / real_of_int tp_fn))
                                / (real_of_int tp / real_of_int tp_fp + real_of_int tp / real_of_int tp_fn)
                           else 0))"
      if "tp_fp \<noteq> 0" "tp_fn \<noteq> 0"
      unfolding a using that by (simp add: np_div_def Let_def)
    have c: "FMeasure_compute self gt_pos pd_rank = Inr (Fin 0)" if "tp = 0"
      unfolding a using that by (simp add: np_div_def Let_def)
    show ?thesis
      using a b c by (simp add: Let_def)
  qed
  have e: "FMeasure_compute self gt_pos pd_rank = Inl e"
    if "MeasureAtK_compute self gt_pos pd_rank = Inl e" for e
    unfolding FMeasure_compute_def that by (simp add: bind_res_def)
  have x1: "MeasureAtK_compute (FMeasure_init 1) [1, 0] [1] = Inr (0, 1, 1)"
    by code_simp
  have x2: "FMeasure_compute (FMeasure_init 1) [1, 0] [1] = Inr (Fin 0)"
    by code_simp
  show ?thesis
    using r e x1 x2 by blast
qed

theorem FMeasure_compute_spec_witness:
  "MeasureAtK_compute (FMeasure_init 1) [0, 1, 1] [0, 2] = Inr (0, 2, 1)
   \<and> FMeasure_compute (FMeasure_init 1) [0, 1, 1] [0, 2] = Inr (Fin 0)
   \<and> MeasureAtK_compute (FMeasure_init 2) [1, 0, 1, 0] [0, 1, 2, 3] = Inr (1, 2, 2)
   \<and> FMeasure_compute (FMeasure_init 2) [1, 0, 1, 0] [0, 1, 2, 3] = Inr (Fin (1 / 2))"
proof -
  have m1: "MeasureAtK_compute (FMeasure_init 1) [0, 1, 1] [0, 2] = Inr (0, 2, 1)"
    by code_simp
  have m2: "MeasureAtK_compute (FMeasure_init 2) [1, 0, 1, 0] [0, 1, 2, 3] = Inr (1, 2, 2)"
    by code_simp
  have "FMeasure_compute (FMeasure_init 1) [0, 1, 1] [0, 2] = Inr (Fin 0)"
    using FMeasure_compute_spec [THEN conjunct1, rule_format, OF m1] by simp
  moreover have "FMeasure_compute (FMeasure_init 2) [1, 0, 1, 0] [0, 1, 2, 3] = Inr (Fin (1 / 2))"
    using FMeasure_compute_spec [THEN conjunct1, rule_format, OF m2]
    by (simp add: Let_def np_div_def)
  ultimately show ?thesis using m1 m2 by simp
qed

text \<open>
  Claim C6. \<open>Precision.compute\<close> returns \<open>tp / tp_fp\<close> and \<open>Recall.compute\<close> returns
  \<open>tp / tp_fn\<close> of the \<open>MeasureAtK\<close> triple (and raise only what \<open>MeasureAtK.compute\<close>
  raises); a zero denominator raises nothing and yields \<open>nan\<close> or an infinity. For \<open>gt_pos = [1,0,1,0]\<close>, \<open>pd_rank = [0,1,2,3]\<close>, \<open>k = 2\<close> the triple
  is \<open>(1, 2, 2)\<close> and precision, recall and F1 are all \<open>1/2\<close>.
\<close>

theorem Precision_Recall_compute_spec:
  "(\<forall>tp tp_fn tp_fp. MeasureAtK_compute self gt_pos pd_rank = Inr (tp, tp_fn, tp_fp) \<longrightarrow>
      Precision_compute self gt_pos pd_rank = Inr (np_div (real_of_int tp) (real_of_int tp_fp))
      \<and> Recall_compute self gt_pos pd_rank = Inr (np_div (real_of_int tp) (real_of_int tp_fn))
      \<and> (tp_fp \<noteq> 0 \<longrightarrow>
           Precision_compute self gt_pos pd_rank = Inr (Fin (real_of_int tp / real_of_int tp_fp)))
      \<and> (tp_fn \<noteq> 0 \<longrightarrow>
           Recall_compute self gt_pos pd_rank = Inr (Fin (real_of_int tp / real_of_int tp_fn)))
      \<and> (tp_fp = 0 \<longrightarrow> Precision_compute self gt_pos pd_rank = Inr NaN)
      \<and> (tp_fn = 0 \<longrightarrow>
           Recall_compute self gt_pos pd_rank
             = Inr (if tp = 0 then NaN else if tp > 0 then PInf else NInf)))
   \<and> MeasureAtK_compute (MeasureAtK_init None 2) [1, 0, 1, 0] [0, 1, 2, 3] = Inr (1, 2, 2)
   \<and> Precision_compute (Precision_init 2) [1, 0, 1, 0] [0, 1, 2, 3] = Inr (Fin (1 / 2))
   \<and> Recall_compute (Recall_init 2) [1, 0, 1, 0] [0, 1, 2, 3] = Inr (Fin (1 / 2))
   \<and> FMeasure_compute (FMeasure_init 2) [1, 0, 1, 0] [0, 1, 2, 3] = Inr (Fin (1 / 2))
   \<and> (\<forall>e. MeasureAtK_compute self gt_pos pd_rank = Inl e
        \<longrightarrow> Precision_compute self gt_pos pd_rank = Inl e
          \<and> Recall_compute self gt_pos pd_rank = Inl e)"
proof -
  have gen: "Precision_compute self gt_pos pd_rank = Inr (np_div (real_of_int tp) (real_of_int tp_fp))
      \<and> Recall_compute self gt_pos pd_rank = Inr (np_div (real_of_int tp) (real_of_int tp_fn))
      \<and> (tp_fp \<noteq> 0 \<longrightarrow>
           Precision_compute self gt_pos pd_rank = Inr (Fin (real_of_int tp / real_of_int tp_fp)))
      \<and> (tp_fn \<noteq> 0 \<longrightarrow>
           Recall_compute self gt_pos pd_rank = Inr (Fin (real_of_int tp / real_of_int tp_fn)))
      \<and> (tp_fp = 0 \<longrightarrow> Precision_compute self gt_pos pd_rank = Inr NaN)
      \<and> (tp_fn = 0 \<longrightarrow>
           Recall_compute self gt_pos pd_rank
             = Inr (if tp = 0 then NaN else if tp > 0 then PInf else NInf))"
    if m: "MeasureAtK_compute self gt_pos pd_rank = Inr (tp, tp_fn, tp_fp)" for tp tp_fn tp_fp
  proof -
    have p: "Precision_compute self gt_pos pd_rank
               = Inr (np_div (real_of_int tp) (real_of_int tp_fp))"
      unfolding Precision_compute_def m bind_res_def by simp
    have r: "Recall_compute self gt_pos pd_rank
               = Inr (np_div (real_of_int tp) (real_of_int tp_fn))"
      unfolding Recall_compute_def m bind_res_def by simp
    have z: "tp_fp = 0 \<Longrightarrow> tp = 0"
      using MeasureAtK_tp_zero [OF m] by simp
    show ?thesis
      unfolding p r using z by (auto simp: np_div_def)
  qed
  have e1: "MeasureAtK_compute (MeasureAtK_init None 2) [1, 0, 1, 0] [0, 1, 2, 3] = Inr (1, 2, 2)"
    by code_simp
  have e2: "Precision_compute (Precision_init 2) [1, 0, 1, 0] [0, 1, 2, 3] = Inr (Fin (1 / 2))"
    by code_simp
  have e3: "Recall_compute (Recall_init 2) [1, 0, 1, 0] [0, 1, 2, 3] = Inr (Fin (1 / 2))"
    by code_simp
  have e4: "FMeasure_compute (FMeasure_init 2) [1, 0, 1, 0] [0, 1, 2, 3] = Inr (Fin (1 / 2))"
    by code_simp
  have err: "Precision_compute self gt_pos pd_rank = Inl e
             \<and> Recall_compute self gt_pos pd_rank = Inl e"
    if "MeasureAtK_compute self gt_pos pd_rank = Inl e" for e
    unfolding Precision_compute_def Recall_compute_def that by (simp add: bind_res_def)
  show ?thesis
    using gen e1 e2 e3 e4 err by blast
qed

theorem Precision_Recall_compute_spec_witness:
  "MeasureAtK_compute (Precision_init 1) [1, 1, 0] [2, 0] = Inr (0, 2, 1)
   \<and> Precision_compute (Precision_init 1) [1, 1, 0] [2, 0] = Inr (Fin 0)
   \<and> MeasureAtK_compute (Recall_init 1) [1, 1, 0] [2, 0] = Inr (0, 2, 1)
   \<and> Recall_compute (Recall_init 1) [1, 1, 0] [2, 0] = Inr (Fin 0)
   \<and> MeasureAtK_compute (Precision_init 3) [0, 0] [] = Inr (0, 0, 0)
   \<and> Precision_compute (Precision_init 3) [0, 0] [] = Inr NaN
   \<and> MeasureAtK_compute (Recall_init 3) [0, 0] [] = Inr (0, 0, 0)
   \<and> Recall_compute (Recall_init 3) [0, 0] [] = Inr NaN"
proof -
  have m1: "MeasureAtK_compute (Precision_init 1) [1, 1, 0] [2, 0] = Inr (0, 2, 1)"
    by code_simp
  have m2: "MeasureAtK_compute (Recall_init 1) [1, 1, 0] [2, 0] = Inr (0, 2, 1)"
    by code_simp
  have m3: "MeasureAtK_compute (Precision_init 3) [0, 0] [] = Inr (0, 0, 0)"
    by code_simp
  have m4: "MeasureAtK_compute (Recall_init 3) [0, 0] [] = Inr (0, 0, 0)"
    by code_simp
  note s1 = Precision_Recall_compute_spec [of "Precision_init 1" "[1, 1, 0]" "[2, 0]",
      THEN conjunct1, rule_format, OF m1]
  note s2 = Precision_Recall_compute_spec [of "Recall_init 1" "[1, 1, 0]" "[2, 0]",
      THEN conjunct1, rule_format, OF m2]
  note s3 = Precision_Recall_compute_spec [of "Precision_init 3" "[0, 0]" "[]",
      THEN conjunct1, rule_format, OF m3]
  note s4 = Precision_Recall_compute_spec [of "Recall_init 3" "[0, 0]" "[]",
      THEN conjunct1, rule_format, OF m4]
  show ?thesis
    using m1 m2 m3 m4 s1 s2 s3 s4 by (simp add: np_div_def)
qed

subsection \<open>NCRR\<close>

text \<open>
  Claim C10. \<open>NCRR.compute\<close> never reads \<open>k\<close>: two NCRR metrics configured with any two
  depths return the same value on the same inputs, although each stores its depth and
  carries it in its name \<open>NCRR@k\<close>.
\<close>

theorem NCRR_compute_k_independent:
  "NCRR_compute (NCRR_init k1) gt_pos pd_rank = NCRR_compute (NCRR_init k2) gt_pos pd_rank
   \<and> k (NCRR_init k1) = k1 \<and> k (NCRR_init k2) = k2
   \<and> name (NCRR_init k1) = Some (''NCRR@'' @ str_int k1)"
  by (simp add: NCRR_compute_def NCRR_init_def RankingMetric_init_def)

subsection \<open>AUC\<close>

lemma np_nonzero_map:
  "np_nonzero (map f xs) = filter (\<lambda>i. f (xs ! i)) [0..<length xs]"
  unfolding np_nonzero_def by (rule filter_cong) auto

lemma set_np_nonzero_mask: "set (np_nonzero (map (\<lambda>g. g \<noteq> 0) m)) = mask_items m"
  by (auto simp: np_nonzero_map mask_items_def)

lemma distinct_np_nonzero: "distinct (np_nonzero msk)"
  by (simp add: np_nonzero_def)

lemma np_sum_Fin_aux: "foldl fadd (Fin a) (map Fin xs) = Fin (a + sum_list xs)"
  by (induction xs arbitrary: a) (simp_all add: add.assoc)

lemma np_sum_Fin: "np_sum (map Fin xs) = Fin (sum_list xs)"
  by (simp add: np_sum_def np_sum_Fin_aux)

lemma np_mean_Fin: "xs \<noteq> [] \<Longrightarrow> np_mean (map Fin xs) = Fin (sum_list xs / real (length xs))"
  by (simp add: np_mean_def np_sum_Fin np_div_def)

lemma count_below:
  assumes "distinct js"
  shows "length (filter (\<lambda>n. (x::real) > n) (map (\<lambda>j. s ! j) js))
         = card {j \<in> set js. x > s ! j}"
proof -
  have "length (filter (\<lambda>n. x > n) (map (\<lambda>j. s ! j) js))
        = length (filter (\<lambda>j. x > s ! j) js)"
    by (simp add: filter_map o_def)
  also have "\<dots> = card (set (filter (\<lambda>j. x > s ! j) js))"
    using distinct_card [OF distinct_filter [OF assms]] by simp
  also have "set (filter (\<lambda>j. x > s ! j) js) = {j \<in> set js. x > s ! j}"
    by auto
  finally show ?thesis .
qed

lemma AUC_compute_eq:
  assumes len: "length gt_pos = length pd_scores" "length gt_neg = length pd_scores"
    and ne: "mask_items gt_pos \<noteq> {}" "mask_items gt_neg \<noteq> {}"
  shows "AUC_compute self pd_scores gt_pos gt_neg
          = Inr (Fin ((\<Sum>i \<in> mask_items gt_pos.
                          real (card {j \<in> mask_items gt_neg. pd_scores ! i > pd_scores ! j})
                          / real (card (mask_items gt_neg)))
                      / real (card (mask_items gt_pos))))"
proof -
  let ?Pl = "np_nonzero (map (\<lambda>g. g \<noteq> 0) gt_pos)"
  let ?Nl = "np_nonzero (map (\<lambda>g. g \<noteq> 0) gt_neg)"
  let ?c = "\<lambda>i. real (card {j \<in> mask_items gt_neg. pd_scores ! i > pd_scores ! j})
              / real (card (mask_items gt_neg))"
  have lenN: "length ?Nl = card (mask_items gt_neg)"
    using distinct_card [OF distinct_np_nonzero, of "map (\<lambda>g. g \<noteq> 0) gt_neg"]
    by (simp add: set_np_nonzero_mask)
  have lenP: "length ?Pl = card (mask_items gt_pos)"
    using distinct_card [OF distinct_np_nonzero, of "map (\<lambda>g. g \<noteq> 0) gt_pos"]
    by (simp add: set_np_nonzero_mask)
  have finN: "finite (mask_items gt_neg)" and finP: "finite (mask_items gt_pos)"
    by (simp_all add: mask_items_def)
  have cN: "card (mask_items gt_neg) \<noteq> 0" using ne(2) finN by simp
  have cP: "card (mask_items gt_pos) \<noteq> 0" using ne(1) finP by simp
  have Pne: "?Pl \<noteq> []" using lenP cP by auto
  have selP: "np_mask_select pd_scores (map (\<lambda>g. g \<noteq> 0) gt_pos)
              = Inr (map (\<lambda>i. pd_scores ! i) ?Pl)"
    using len(1) by (simp add: np_mask_select_def)
  have selN: "np_mask_select pd_scores (map (\<lambda>g. g \<noteq> 0) gt_neg)
              = Inr (map (\<lambda>i. pd_scores ! i) ?Nl)"
    using len(2) by (simp add: np_mask_select_def)
  have each: "np_div (real (length (filter (\<lambda>n. x > n) (map (\<lambda>i. pd_scores ! i) ?Nl))))
                     (real (length (map (\<lambda>i. pd_scores ! i) ?Nl)))
              = Fin (real (card {j \<in> mask_items gt_neg. x > pd_scores ! j})
                      / real (card (mask_items gt_neg)))" for x
    using cN count_below [OF distinct_np_nonzero, of x pd_scores "map (\<lambda>g. g \<noteq> 0) gt_neg"]
    by (simp add: np_div_def lenN set_np_nonzero_mask)
  have auc: "map (\<lambda>pos_score.
                 np_div (real (length (filter (\<lambda>n. pos_score > n) (map (\<lambda>i. pd_scores ! i) ?Nl))))
                        (real (length (map (\<lambda>i. pd_scores ! i) ?Nl))))
               (map (\<lambda>i. pd_scores ! i) ?Pl)
             = map Fin (map ?c ?Pl)"
    unfolding map_map o_def each ..
  have "AUC_compute self pd_scores gt_pos gt_neg
        = Inr (np_mean (map (\<lambda>pos_score.
                 np_div (real (length (filter (\<lambda>n. pos_score > n) (map (\<lambda>i. pd_scores ! i) ?Nl))))
                        (real (length (map (\<lambda>i. pd_scores ! i) ?Nl))))
               (map (\<lambda>i. pd_scores ! i) ?Pl)))"
    unfolding AUC_compute_def selP selN bind_res_def Let_def by (simp only: sum.case)
  also have "\<dots> = Inr (np_mean (map Fin (map ?c ?Pl)))"
    by (simp only: auc)
  also have "np_mean (map Fin (map ?c ?Pl)) = Fin (sum_list (map ?c ?Pl) / real (length ?Pl))"
    using Pne np_mean_Fin [of "map ?c ?Pl"] by simp
  also have "sum_list (map ?c ?Pl) = sum ?c (mask_items gt_pos)"
    using sum_list_distinct_conv_sum_set [OF distinct_np_nonzero, of ?c "map (\<lambda>g. g \<noteq> 0) gt_pos"]
    by (simp add: set_np_nonzero_mask)
  finally show ?thesis by (simp add: lenP)
qed

text \<open>
  Claim C3. With masks of the length of \<open>pd_scores\<close>, at least one positive and at least one
  negative item, \<open>AUC.compute\<close> returns the mean, over the positive items, of the fraction of
  negative items whose score the positive item's score strictly exceeds. A tie counts for
  nothing: one positive and one negative with equal scores give 0, a strictly greater
  positive score gives 1.
\<close>

theorem AUC_compute_spec:
  "(length gt_pos = length pd_scores \<and> length gt_neg = length pd_scores
      \<and> mask_items gt_pos \<noteq> {} \<and> mask_items gt_neg \<noteq> {}
    \<longrightarrow> AUC_compute self pd_scores gt_pos gt_neg
          = Inr (Fin ((\<Sum>i \<in> mask_items gt_pos.
                          real (card {j \<in> mask_items gt_neg. pd_scores ! i > pd_scores ! j})
                          / real (card (mask_items gt_neg)))
                      / real (card (mask_items gt_pos)))))
   \<and> AUC_compute AUC_init [1 / 2, 1 / 2] [1, 0] [0, 1] = Inr (Fin 0)
   \<and> AUC_compute AUC_init [3 / 5, 1 / 2] [1, 0] [0, 1] = Inr (Fin 1)"
proof -
  have e1: "AUC_compute AUC_init [1 / 2, 1 / 2] [1, 0] [0, 1] = Inr (Fin 0)"
    by code_simp
  have e2: "AUC_compute AUC_init [3 / 5, 1 / 2] [1, 0] [0, 1] = Inr (Fin 1)"
    by code_simp
  show ?thesis
    using AUC_compute_eq [of gt_pos pd_scores gt_neg self] e1 e2 by blast
qed

theorem AUC_compute_spec_witness:
  "AUC_compute AUC_init [9 / 10, 1 / 10, 1 / 2, 1 / 5] [1, 0, 0, 0] [0, 1, 0, 1] = Inr (Fin 1)"
proof -
  have p: "mask_items [1, 0, 0, 0] = {0}"
    by (auto simp: mask_items_def nth_Cons' split: if_splits)
  have n: "mask_items [0, 1, 0, 1] = {1, 3}"
    by (auto simp: mask_items_def nth_Cons' split: if_splits)
  have c: "{j. (j = Suc 0 \<or> j = 3) \<and> [9 / 10, 1 / 10, 1 / 2, 1 / 5] ! j * 10 < (9::real)}
           = {Suc 0, 3}"
    by (auto simp: numeral_3_eq_3)
  show ?thesis
    using AUC_compute_spec [of "[1, 0, 0, 0]" "[9 / 10, 1 / 10, 1 / 2, 1 / 5]" "[0, 1, 0, 1]" AUC_init,
        THEN conjunct1]
    by (simp add: p n c)
qed

subsection \<open>NDCG\<close>

lemma bind_res_Inr: "bind_res (Inr v) f = f v"
  by (simp add: bind_res_def)


lemma np_take_valid:
  "\<forall>x \<in> set is. valid_index (length a) x \<Longrightarrow>
   np_take a is = Inr (map (\<lambda>x. a ! norm_index (length a) x) is)"
  by (induction "is") (simp_all add: np_index_valid bind_res_def)


lemma top_k_map: "top_k kk (map f xs) = map f (top_k kk xs)"
  by (simp add: top_k_def take_map)

lemma dcg_tail:
  assumes "\<forall>g \<in> set rels. 0 \<le> g"
  shows "bind_res (np_pow2 rels) (\<lambda>pw.
           let gain = map (\<lambda>x. x - 1) pw;
               discounts = map (\<lambda>i. log 2 (real (i + 2))) [0..<length rels]
           in Inr (sum_list (map2 (\<lambda>g d. real_of_int g / d) gain discounts)))
         = Inr (dcg_of rels)"
proof -
  have pw: "np_pow2 rels = Inr (map (\<lambda>x. 2 ^ nat x) rels)"
    using assms by (auto simp: np_pow2_def)
  have "map2 (\<lambda>g d. real_of_int g / d) (map (\<lambda>x. x - 1) (map (\<lambda>x. 2 ^ nat x) rels))
          (map (\<lambda>i. log 2 (real (i + 2))) [0..<length rels])
        = map (\<lambda>i. (2 ^ nat (rels ! i) - 1) / log 2 (real i + 2)) [0..<length rels]"
    by (rule nth_equalityI) (auto simp: add.commute)
  then show ?thesis
    unfolding pw bind_res_def Let_def dcg_of_def
    by (simp add: interv_sum_list_conv_sum_set_nat atLeast0LessThan)
qed


lemma dcg_score_valid:
  assumes "\<forall>x \<in> set (top_k kk pd_rank). valid_index (length gt_pos) x \<and> 0 \<le> item_at gt_pos x"
  shows "dcg_score gt_pos pd_rank kk = Inr (dcg_of (map (item_at gt_pos) (top_k kk pd_rank)))"
proof -
  have take: "np_take gt_pos (top_k kk pd_rank) = Inr (map (item_at gt_pos) (top_k kk pd_rank))"
    using assms np_take_valid [of "top_k kk pd_rank" gt_pos] by (simp add: item_at_def)
  have nn: "\<forall>g \<in> set (map (item_at gt_pos) (top_k kk pd_rank)). 0 \<le> g"
    using assms by auto
  show ?thesis
    unfolding dcg_score_def top_k_def [symmetric] Let_def take bind_res_Inr
    by (rule dcg_tail [OF nn, unfolded Let_def])
qed



text \<open>The relevance sequence along an ideal ranking is the relevance vector sorted descending.\<close>

lemma item_at_int: "i < length gt \<Longrightarrow> item_at gt (int i) = gt ! i"
  by (simp add: item_at_def norm_index_def)

lemma ideal_ranking_set:
  assumes "is_ideal_ranking gt r"
  shows "set r = int ` {..<length gt}"
proof -
  have "set r = set (map int [0..<length gt])"
    using assms unfolding is_ideal_ranking_def by (metis set_mset_mset)
  then show ?thesis by (simp add: atLeast0LessThan)
qed

lemma ideal_ranking_rels:
  assumes "is_ideal_ranking gt r"
  shows "map (item_at gt) r = rev (sort gt)"
proof -
  have eq: "map (item_at gt) r = map (\<lambda>x. gt ! nat x) r"
    using ideal_ranking_set [OF assms] by (auto simp: item_at_def norm_index_def)
  have "mset (map (\<lambda>x. gt ! nat x) r) = image_mset (\<lambda>x. gt ! nat x) (mset (map int [0..<length gt]))"
    using assms unfolding is_ideal_ranking_def by (metis mset_map)
  also have "\<dots> = mset (map (\<lambda>i. gt ! i) [0..<length gt])"
    by (simp add: image_mset.compositionality o_def)
  also have "\<dots> = mset gt" by (simp add: map_nth)
  finally have m: "mset (rev (map (\<lambda>x. gt ! nat x) r)) = mset gt" by simp
  have "sorted_wrt (\<lambda>a b. a \<ge> b) (map (\<lambda>x. gt ! nat x) r)"
    using assms unfolding is_ideal_ranking_def by simp
  then have s: "sorted (rev (map (\<lambda>x. gt ! nat x) r))"
    by (simp add: sorted_wrt_rev)
  have "sort gt = rev (map (\<lambda>x. gt ! nat x) r)"
    using properties_for_sort [OF m s] .
  then show ?thesis using eq by simp
qed

lemma ideal_ranking_valid:
  assumes "is_ideal_ranking gt r"
  shows "\<forall>x \<in> set r. valid_index (length gt) x"
  using ideal_ranking_set [OF assms] by (auto simp: valid_index_def)


lemma argsort_ideal: "is_ideal_ranking gt (map int (rev (np_argsort gt)))"
proof -
  have "sorted (map (\<lambda>i. gt ! i) (np_argsort gt))"
    unfolding np_argsort_def by simp
  then have "sorted_wrt (\<lambda>a b. a \<ge> b) (rev (map (\<lambda>i. gt ! i) (np_argsort gt)))"
    by (simp add: sorted_wrt_rev)
  then have "sorted_wrt (\<lambda>a b. a \<ge> b) (map (\<lambda>x. gt ! nat x) (map int (rev (np_argsort gt))))"
    by (simp add: rev_map o_def)
  moreover have "mset (map int (rev (np_argsort gt))) = mset (map int [0..<length gt])"
    unfolding np_argsort_def by simp
  ultimately show ?thesis unfolding is_ideal_ranking_def by simp
qed



lemma top_k_all: "int (length xs) \<le> kk \<Longrightarrow> top_k kk xs = xs"
  by (simp add: top_k_def)

lemma dcg_score_top_k: "dcg_score gt r kk = dcg_score gt (top_k kk r) (- 1)"
  by (simp add: dcg_score_def top_k_def)

lemma length_np_argsort: "length (np_argsort gt) = length gt"
  by (simp add: np_argsort_def)

lemma NDCG_compute_full:
  assumes "int (length pd_rank) \<le> kk" "int (length gt_pos) \<le> kk"
  shows "NDCG_compute (NDCG_init kk) gt_pos pd_rank = NDCG_compute (NDCG_init (- 1)) gt_pos pd_rank"
proof -
  have k: "k (NDCG_init j) = j" for j
    by (simp add: NDCG_init_def RankingMetric_init_def)
  have a: "dcg_score gt_pos pd_rank kk = dcg_score gt_pos pd_rank (- 1)"
    using dcg_score_top_k [of gt_pos pd_rank kk] top_k_all [OF assms(1)] by simp
  have "int (length (map int (rev (np_argsort gt_pos)))) \<le> kk"
    using assms(2) by (simp add: length_np_argsort)
  from top_k_all [OF this]
  have b: "dcg_score gt_pos (map int (rev (np_argsort gt_pos))) kk
           = dcg_score gt_pos (map int (rev (np_argsort gt_pos))) (- 1)"
    using dcg_score_top_k [of gt_pos "map int (rev (np_argsort gt_pos))" kk] by simp
  show ?thesis
    unfolding NDCG_compute_def k a b ..
qed

text \<open>
  Claim C7, amended. Once the depth is at least the length of \<open>pd_rank\<close> and at least the
  length of \<open>gt_pos\<close>, NDCG no longer depends on it: any two such depths give the same
  result, which is also the untruncated (\<open>k = -1\<close>) one.
\<close>

theorem NDCG_depth_invariant:
  "int (length pd_rank) \<le> K1 \<and> int (length gt_pos) \<le> K1
   \<and> int (length pd_rank) \<le> K2 \<and> int (length gt_pos) \<le> K2
   \<longrightarrow> NDCG_compute (NDCG_init K1) gt_pos pd_rank = NDCG_compute (NDCG_init K2) gt_pos pd_rank
     \<and> NDCG_compute (NDCG_init K1) gt_pos pd_rank = NDCG_compute (NDCG_init (- 1)) gt_pos pd_rank"
  using NDCG_compute_full [of pd_rank K1 gt_pos] NDCG_compute_full [of pd_rank K2 gt_pos]
  by simp

text \<open>
  The claim as stated fails, because the ideal ranking is truncated to the depth as well:
  with three positives and the rank \<open>[0]\<close>, depth 1 gives 1 and depth 2 gives
  \<open>1 / (1 + 1 / log2 3)\<close>, although both depths are at least the length of the rank.
\<close>

lemma log_2_3_pos: "0 < log 2 (3::real)"
  by simp

lemma ndcg_k1: "NDCG_compute (NDCG_init 1) [1, 1, 1] [0] = Inr (Fin 1)"
  by (simp add: NDCG_compute_def NDCG_init_def RankingMetric_init_def dcg_score_def
      np_argsort_def bind_res_def np_index_def np_pow2_def np_div_def)

lemma ndcg_k2: "NDCG_compute (NDCG_init 2) [1, 1, 1] [0] = Inr (Fin (1 / (1 + 1 / log 2 3)))"
proof -
  have "1 + 1 / log 2 (3::real) > 0"
    using log_2_3_pos by (simp add: add_pos_pos)
  then have "1 + 1 / log 2 (3::real) \<noteq> 0" by simp
  then show ?thesis
    by (simp add: NDCG_compute_def NDCG_init_def RankingMetric_init_def dcg_score_def
      np_argsort_def bind_res_def np_index_def np_pow2_def np_div_def numeral_2_eq_2)
qed

theorem NDCG_depth_counterexample:
  "int (length [0 :: int]) \<le> 1 \<and> int (length [0 :: int]) \<le> 2
   \<and> NDCG_compute (NDCG_init 1) [1, 1, 1] [0] \<noteq> NDCG_compute (NDCG_init 2) [1, 1, 1] [0]"
proof -
  have "1 / log 2 (3::real) > 0"
    using log_2_3_pos by simp
  then have "1 + 1 / log 2 (3::real) > 1"
    by simp
  then have "1 / (1 + 1 / log 2 (3::real)) < 1"
    by (subst divide_less_eq_1_pos) linarith+
  then have ne: "1 \<noteq> 1 / (1 + 1 / log 2 (3::real))"
    by (rule less_imp_neq [symmetric])
  have "NDCG_compute (NDCG_init 1) [1, 1, 1] [0] \<noteq> NDCG_compute (NDCG_init 2) [1, 1, 1] [0]"
    unfolding ndcg_k1 ndcg_k2 sum.inject npfloat.inject by (rule ne)
  moreover have "int (length [0 :: int]) \<le> 1 \<and> int (length [0 :: int]) \<le> 2"
    by simp
  ultimately show ?thesis
    by blast
qed

theorem NDCG_depth_invariant_witness:
  "NDCG_compute (NDCG_init 2) [1, 0] [1, 0] = NDCG_compute (NDCG_init 5) [1, 0] [1, 0]
   \<and> NDCG_compute (NDCG_init 2) [1, 0] [1, 0] = NDCG_compute (NDCG_init (- 1)) [1, 0] [1, 0]"
  by (rule NDCG_depth_invariant [of "[1, 0]" 2 "[1, 0]" 5, rule_format]) simp

subsection \<open>NCRR and the ideal order\<close>

lemma finite_positive_set: "finite (positive_set gt)"
proof -
  have "positive_set gt \<subseteq> int ` {..<length gt}"
  proof
    fix x assume "x \<in> positive_set gt"
    then have "x = int (nat x)" "nat x < length gt" by (auto simp: positive_set_def)
    then show "x \<in> int ` {..<length gt}" by (metis imageI lessThan_iff)
  qed
  then show ?thesis by (rule finite_subset) simp
qed

lemma distinct_gt_pos_items: "distinct (gt_pos_items gt)"
  unfolding gt_pos_items_def by (simp add: distinct_map distinct_np_nonzero inj_on_def)

lemma length_gt_pos_items: "length (gt_pos_items gt) = card (positive_set gt)"
  using distinct_card [OF distinct_gt_pos_items, of gt] by (simp add: set_gt_pos_items)

lemma NCRR_compute_eq:
  "NCRR_compute self gt_pos pd_rank
     = np_div (\<Sum>p \<in> matched_positions gt_pos pd_rank. 1 / (real p + 1))
              (\<Sum>i<card (positive_set gt_pos). 1 / (real i + 1))"
proof -
  let ?M = "filter (\<lambda>p. pd_rank ! p \<in> positive_set gt_pos) [0..<length pd_rank]"
  have m: "np_nonzero (np_in1d pd_rank (gt_pos_items gt_pos)) = ?M"
    by (simp add: np_nonzero_in1d set_gt_pos_items)
  have setM: "set ?M = matched_positions gt_pos pd_rank"
    by (auto simp: matched_positions_def)
  have crr: "sum_list (map (\<lambda>r. 1 / real r) (map (\<lambda>i. i + 1) ?M))
             = (\<Sum>p \<in> matched_positions gt_pos pd_rank. 1 / (real p + 1))"
  proof -
    have "sum_list (map (\<lambda>r. 1 / real r) (map (\<lambda>i. i + 1) ?M))
          = sum_list (map (\<lambda>p. 1 / (real p + 1)) ?M)"
      by (simp add: o_def add.commute)
    also have "\<dots> = (\<Sum>p \<in> set ?M. 1 / (real p + 1))"
      by (rule sum_list_distinct_conv_sum_set) simp
    finally show ?thesis by (simp only: setM)
  qed
  have icrr: "sum_list (map (\<lambda>r. 1 / real r) (map (\<lambda>i. i + 1) [0..<length (gt_pos_items gt_pos)]))
              = (\<Sum>i<card (positive_set gt_pos). 1 / (real i + 1))"
    by (simp add: o_def interv_sum_list_conv_sum_set_nat atLeast0LessThan length_gt_pos_items
        add.commute)
  show ?thesis
    unfolding NCRR_compute_def Let_def m crr icrr ..
qed

lemma card_matched_positions:
  assumes "distinct pd_rank"
  shows "card (matched_positions gt_pos pd_rank) = card (set pd_rank \<inter> positive_set gt_pos)"
proof -
  have "card (matched_positions gt_pos pd_rank)
        = length (filter (\<lambda>x. x \<in> positive_set gt_pos) pd_rank)"
    by (simp add: matched_positions_def length_filter_conv_card)
  also have "\<dots> = card (set (filter (\<lambda>x. x \<in> positive_set gt_pos) pd_rank))"
    using distinct_card [OF distinct_filter [OF assms]] by simp
  also have "set (filter (\<lambda>x. x \<in> positive_set gt_pos) pd_rank) = set pd_rank \<inter> positive_set gt_pos"
    by auto
  finally show ?thesis .
qed

lemma downward_closed_initial:
  fixes M :: "nat set"
  assumes "finite M" "\<forall>i j. i < j \<and> j \<in> M \<longrightarrow> i \<in> M"
  shows "M = {..<card M}"
proof (cases "M = {}")
  case True
  then show ?thesis by simp
next
  case False
  let ?m = "Max M"
  have mM: "?m \<in> M" using assms(1) False by simp
  have "M = {..?m}"
  proof (intro set_eqI iffI)
    fix x assume "x \<in> M"
    then show "x \<in> {..?m}" using assms(1) by simp
  next
    fix x assume "x \<in> {..?m}"
    then have "x < ?m \<or> x = ?m" by auto
    then show "x \<in> M" using assms(2) mM by blast
  qed
  then have "card M = Suc ?m" by (metis card_atMost)
  then show ?thesis using \<open>M = {..?m}\<close> by (metis lessThan_Suc_atMost)
qed

lemma sum_antimono_exact:
  fixes f :: "nat \<Rightarrow> real"
  assumes "finite M" "\<forall>i j. i \<le> j \<longrightarrow> f j \<le> f i"
  shows "sum f M \<le> sum f {..<card M}"
  using assms(1)
proof (induction "card M" arbitrary: M)
  case 0
  then show ?case by simp
next
  case (Suc m)
  then have ne: "M \<noteq> {}" by auto
  let ?x = "Max M"
  have xM: "?x \<in> M" using Suc.prems ne by simp
  have cardM': "card (M - {?x}) = m" using Suc.hyps(2) xM Suc.prems by simp
  have "M \<subseteq> {..?x}" using Suc.prems by auto
  then have "card M \<le> card {..?x}" by (intro card_mono) simp_all
  then have "m \<le> ?x" using Suc.hyps(2) by simp
  then have fx: "f ?x \<le> f m" using assms(2) by blast
  have IH: "sum f (M - {?x}) \<le> sum f {..<m}"
    using Suc.hyps(1) [of "M - {?x}"] cardM' Suc.prems by simp
  have "sum f M = f ?x + sum f (M - {?x})"
    using Suc.prems xM by (simp add: sum.remove)
  also have "\<dots> \<le> f m + sum f {..<m}" using fx IH by simp
  also have "\<dots> = sum f {..<Suc m}" by simp
  finally show ?case using Suc.hyps(2) by simp
qed

lemma sum_antimono_initial:
  fixes f :: "nat \<Rightarrow> real"
  assumes "finite M" "card M \<le> c" "\<forall>i j. i \<le> j \<longrightarrow> f j \<le> f i" "\<forall>i. 0 \<le> f i"
  shows "sum f M \<le> sum f {..<c}"
proof -
  have "sum f M \<le> sum f {..<card M}"
    by (rule sum_antimono_exact [OF assms(1,3)])
  also have "\<dots> \<le> sum f {..<c}"
    using assms(2,4) by (intro sum_mono2) auto
  finally show ?thesis .
qed

lemma positive_set_nonempty_iff: "positive_set gt \<noteq> {} \<longleftrightarrow> (\<exists>g \<in> set gt. g > 0)"
proof
  assume "positive_set gt \<noteq> {}"
  then obtain x where "x \<in> positive_set gt" by blast
  then have "nat x < length gt" "gt ! nat x > 0" by (auto simp: positive_set_def)
  then show "\<exists>g \<in> set gt. g > 0" using nth_mem by blast
next
  assume "\<exists>g \<in> set gt. g > 0"
  then obtain i where "i < length gt" "gt ! i > 0" by (auto simp: in_set_conv_nth)
  then have "int i \<in> positive_set gt" by (simp add: positive_set_def)
  then show "positive_set gt \<noteq> {}" by blast
qed

lemma once_set: "lists_every_item_once gt pd \<Longrightarrow> set pd = int ` {..<length gt}"
  unfolding lists_every_item_once_def
  by (metis set_mset_mset set_map set_upt atLeast0LessThan)

lemma once_distinct: "lists_every_item_once gt pd \<Longrightarrow> distinct pd"
proof -
  assume "lists_every_item_once gt pd"
  then have "mset pd = mset (map int [0..<length gt])"
    by (simp add: lists_every_item_once_def)
  moreover have "distinct (map int [0..<length gt])"
    by (simp add: distinct_map inj_on_def)
  ultimately show ?thesis by (metis distinct_count_atmost_1 count_mset_0_iff)
qed

lemma positive_subset_items: "positive_set gt \<subseteq> int ` {..<length gt}"
proof
  fix x assume "x \<in> positive_set gt"
  then have "x = int (nat x)" "nat x < length gt" by (auto simp: positive_set_def)
  then show "x \<in> int ` {..<length gt}" by (metis imageI lessThan_iff)
qed

lemma harmonic_pos: "0 < n \<Longrightarrow> 0 < (\<Sum>i<n. 1 / (real i + 1))"
  by (rule sum_pos) auto

lemma NCRR_relevant_first:
  assumes "lists_every_item_once gt pd" "relevant_first gt pd" "positive_set gt \<noteq> {}"
  shows "NCRR_compute self gt pd = Fin 1"
proof -
  let ?M = "matched_positions gt pd"
  have fin: "finite ?M" by (simp add: matched_positions_def)
  have down: "\<forall>i j. i < j \<and> j \<in> ?M \<longrightarrow> i \<in> ?M"
    using assms(2) unfolding relevant_first_def matched_positions_def by auto
  have "set pd \<inter> positive_set gt = positive_set gt"
    using once_set [OF assms(1)] positive_subset_items [of gt] by auto
  then have card: "card ?M = card (positive_set gt)"
    using card_matched_positions [OF once_distinct [OF assms(1)], of gt] by simp
  have M: "?M = {..<card (positive_set gt)}"
    using downward_closed_initial [OF fin down] card by simp
  have "0 < card (positive_set gt)"
    using assms(3) finite_positive_set [of gt] by (simp add: card_gt_0_iff)
  then have "(\<Sum>i<card (positive_set gt). 1 / (real i + 1)) \<noteq> 0"
    using harmonic_pos [of "card (positive_set gt)"] by simp
  then show ?thesis
    unfolding NCRR_compute_eq M by (simp add: np_div_def)
qed

lemma item_at_mem: "valid_index (length gt) x \<Longrightarrow> item_at gt x \<in> set gt"
  unfolding item_at_def by (simp add: norm_index_less)

lemma dcg_score_ideal:
  assumes "is_ideal_ranking gt r" "\<forall>g \<in> set gt. 0 \<le> g"
  shows "dcg_score gt r kk = Inr (dcg_of (top_k kk (rev (sort gt))))"
proof -
  have v: "\<forall>x \<in> set (top_k kk r). valid_index (length gt) x"
    using ideal_ranking_valid [OF assms(1)] by (auto simp: top_k_def dest: in_set_takeD)
  then have "\<forall>x \<in> set (top_k kk r). valid_index (length gt) x \<and> 0 \<le> item_at gt x"
    using assms(2) item_at_mem by blast
  from dcg_score_valid [OF this] show ?thesis
    using ideal_ranking_rels [OF assms(1)] by (simp add: top_k_map [symmetric])
qed

lemma log2_ge_1: "1 \<le> log 2 (real i + 2)"
  by simp

lemma dcg_term_nonneg: "0 \<le> (2 ^ nat g - 1) / log 2 (real i + 2)"
proof -
  have "0 < log 2 (real i + 2)" using log2_ge_1 [of i] by linarith
  moreover have "(1::real) \<le> 2 ^ nat g" by simp
  ultimately show ?thesis by simp
qed

lemma dcg_of_nonneg: "0 \<le> dcg_of rels"
  unfolding dcg_of_def by (rule sum_nonneg) (rule dcg_term_nonneg)

lemma dcg_of_pos:
  assumes "rels \<noteq> []" "0 < rels ! 0"
  shows "0 < dcg_of rels"
  unfolding dcg_of_def
proof (rule sum_pos2 [where i = 0])
  show "0 \<in> {..<length rels}" using assms(1) by simp
  have "(2::real) ^ nat (rels ! 0) \<ge> 2 ^ 1"
    using assms(2) by (intro power_increasing) auto
  then show "0 < (2 ^ nat (rels ! 0) - 1) / log 2 (real 0 + 2)" by simp
qed (simp_all add: dcg_term_nonneg)

lemma top_k_nonempty: "xs \<noteq> [] \<Longrightarrow> top_k kk xs \<noteq> []"
  by (cases xs) (auto simp: top_k_def nat_eq_iff)

lemma top_k_nth0: "xs \<noteq> [] \<Longrightarrow> top_k kk xs ! 0 = xs ! 0"
  by (auto simp: top_k_def)

lemma sorted_le_last:
  fixes xs :: "int list"
  shows "sorted xs \<Longrightarrow> x \<in> set xs \<Longrightarrow> x \<le> last xs"
proof (induction xs)
  case Nil
  then show ?case by simp
next
  case (Cons a xs)
  show ?case
  proof (cases "xs = []")
    case True
    then show ?thesis using Cons.prems by simp
  next
    case False
    then have "last xs \<in> set xs" by simp
    then have "a \<le> last xs" using Cons.prems(1) by auto
    moreover have "x \<in> set xs \<Longrightarrow> x \<le> last xs"
      using Cons.IH Cons.prems(1) by simp
    ultimately show ?thesis using Cons.prems(2) False by auto
  qed
qed

lemma ideal_dcg_pos:
  assumes "\<exists>g \<in> set gt. 0 < g"
  shows "0 < dcg_of (top_k kk (rev (sort gt)))"
proof -
  from assms obtain g where g: "g \<in> set gt" "0 < g" by blast
  then have "set (sort gt) \<noteq> {}" by auto
  then have ne: "rev (sort gt) \<noteq> []" by (metis rev_is_Nil_conv set_empty)
  have "g \<le> last (sort gt)"
    using g(1) by (intro sorted_le_last) simp_all
  moreover have "rev (sort gt) ! 0 = last (sort gt)"
    using ne by (simp add: hd_rev hd_conv_nth [symmetric])
  ultimately have "0 < top_k kk (rev (sort gt)) ! 0"
    using g(2) top_k_nth0 [OF ne, of kk] by simp
  then show ?thesis
    using dcg_of_pos [OF top_k_nonempty [OF ne]] by simp
qed

lemma NDCG_ideal_rank:
  assumes "is_ideal_ranking gt pd" "\<forall>g \<in> set gt. 0 \<le> g" "positive_set gt \<noteq> {}"
  shows "NDCG_compute self gt pd = Inr (Fin 1)"
proof -
  let ?d = "dcg_of (top_k (k self) (rev (sort gt)))"
  have d: "dcg_score gt pd (k self) = Inr ?d"
    by (rule dcg_score_ideal [OF assms(1,2)])
  have i: "dcg_score gt (map int (rev (np_argsort gt))) (k self) = Inr ?d"
    by (rule dcg_score_ideal [OF argsort_ideal assms(2)])
  have "?d \<noteq> 0"
    using ideal_dcg_pos [of gt "k self"] assms(3) positive_set_nonempty_iff [of gt] by auto
  then show ?thesis
    unfolding NDCG_compute_def d i bind_res_Inr by (simp add: np_div_def)
qed

lemma binary_relevant_first_ideal:
  assumes "binary gt" "lists_every_item_once gt pd" "relevant_first gt pd"
  shows "is_ideal_ranking gt pd"
proof -
  have mem: "0 \<le> pd ! p \<and> nat (pd ! p) < length gt" if "p < length pd" for p
    using once_set [OF assms(2)] nth_mem [OF that] by auto
  have "gt ! nat (pd ! j) \<le> gt ! nat (pd ! i)" if "i < j" "j < length pd" for i j
  proof -
    have i: "i < length pd" using that by simp
    note bj = binary_nth [OF assms(1), of "nat (pd ! j)"]
    note bi = binary_nth [OF assms(1), of "nat (pd ! i)"]
    show ?thesis
    proof (cases "gt ! nat (pd ! j) = 1")
      case True
      then have "pd ! j \<in> positive_set gt"
        using mem [OF that(2)] by (auto simp: positive_set_def)
      then have "pd ! i \<in> positive_set gt"
        using assms(3) that unfolding relevant_first_def by blast
      then have "gt ! nat (pd ! i) > 0" by (simp add: positive_set_def)
      then show ?thesis using bi mem [OF i] True by auto
    next
      case False
      then have "gt ! nat (pd ! j) = 0" using bj mem [OF that(2)] by auto
      then show ?thesis using bi mem [OF i] by auto
    qed
  qed
  then have "sorted_wrt (\<lambda>a b. a \<ge> b) (map (\<lambda>x. gt ! nat x) pd)"
    by (simp add: sorted_wrt_iff_nth_less)
  then show ?thesis
    using assms(2) unfolding is_ideal_ranking_def lists_every_item_once_def by simp
qed

lemma ideal_relevant_first:
  assumes "is_ideal_ranking gt pd"
  shows "lists_every_item_once gt pd \<and> relevant_first gt pd"
proof -
  have once: "lists_every_item_once gt pd"
    using assms unfolding is_ideal_ranking_def lists_every_item_once_def by simp
  have mem: "0 \<le> pd ! p \<and> pd ! p < int (length gt)" if "p < length pd" for p
    using once_set [OF once] nth_mem [OF that] by auto
  have s: "gt ! nat (pd ! j) \<le> gt ! nat (pd ! i)" if "i < j" "j < length pd" for i j
    using assms that unfolding is_ideal_ranking_def by (simp add: sorted_wrt_iff_nth_less)
  have "relevant_first gt pd"
    unfolding relevant_first_def positive_set_def
    using s mem by (smt (verit) mem_Collect_eq order.strict_trans)
  then show ?thesis using once by simp
qed

text \<open>
  Claim C8, amended. For a binary relevance vector with at least one positive, a rank that
  lists every item exactly once and places all relevant items before all irrelevant ones
  gets NDCG 1 (at every depth) and NCRR 1. For non-negative graded relevance the same holds
  when the rank lists every item exactly once in non-increasing order of relevance.
\<close>

theorem NDCG_NCRR_ideal_order:
  "(binary gt_pos \<and> lists_every_item_once gt_pos pd_rank \<and> relevant_first gt_pos pd_rank
      \<and> positive_set gt_pos \<noteq> {}
    \<longrightarrow> NDCG_compute self gt_pos pd_rank = Inr (Fin 1)
      \<and> NCRR_compute self' gt_pos pd_rank = Fin 1)
   \<and> ((\<forall>g \<in> set gt_pos. 0 \<le> g) \<and> is_ideal_ranking gt_pos pd_rank \<and> positive_set gt_pos \<noteq> {}
    \<longrightarrow> NDCG_compute self gt_pos pd_rank = Inr (Fin 1)
      \<and> NCRR_compute self' gt_pos pd_rank = Fin 1)"
proof -
  have graded: "NDCG_compute self gt_pos pd_rank = Inr (Fin 1)
      \<and> NCRR_compute self' gt_pos pd_rank = Fin 1"
    if "\<forall>g \<in> set gt_pos. 0 \<le> g" "is_ideal_ranking gt_pos pd_rank" "positive_set gt_pos \<noteq> {}"
  proof -
    have "NDCG_compute self gt_pos pd_rank = Inr (Fin 1)"
      by (rule NDCG_ideal_rank [OF that(2,1,3)])
    moreover have "NCRR_compute self' gt_pos pd_rank = Fin 1"
      using ideal_relevant_first [OF that(2)] NCRR_relevant_first [of gt_pos pd_rank] that(3)
      by simp
    ultimately show ?thesis by simp
  qed
  have bin: "NDCG_compute self gt_pos pd_rank = Inr (Fin 1)
      \<and> NCRR_compute self' gt_pos pd_rank = Fin 1"
    if "binary gt_pos" "lists_every_item_once gt_pos pd_rank" "relevant_first gt_pos pd_rank"
       "positive_set gt_pos \<noteq> {}"
  proof -
    have "\<forall>g \<in> set gt_pos. 0 \<le> g"
      using that(1) unfolding binary_def by auto
    then show ?thesis
      using graded binary_relevant_first_ideal [OF that(1,2,3)] that(4) by simp
  qed
  show ?thesis using graded bin by blast
qed

lemma positive_set_101: "positive_set [1, 0, 1] = {0, 2}"
  by (auto simp: positive_set_def nth_Cons' nat_eq_iff split: if_splits)

theorem NDCG_NCRR_ideal_order_witness:
  "binary [1, 0, 1] \<and> lists_every_item_once [1, 0, 1] [2, 0, 1] \<and> relevant_first [1, 0, 1] [2, 0, 1]
   \<and> is_ideal_ranking [1, 0, 1] [2, 0, 1]
   \<and> positive_set [1, 0, 1] \<noteq> {}
   \<and> NDCG_compute (NDCG_init 2) [1, 0, 1] [2, 0, 1] = Inr (Fin 1)
   \<and> NCRR_compute (NCRR_init 2) [1, 0, 1] [2, 0, 1] = Fin 1"
proof -
  have b: "binary [1, 0, 1]"
    by (simp add: binary_def)
  have o: "lists_every_item_once [1, 0, 1] [2, 0, 1]"
    by (simp add: lists_every_item_once_def numeral_3_eq_3)
  have r: "relevant_first [1, 0, 1] [2, 0, 1]"
    unfolding relevant_first_def positive_set_101
    by (auto simp: nth_Cons' less_Suc_eq numeral_3_eq_3)
  have i: "is_ideal_ranking [1, 0, 1] [2, 0, 1]"
    by (simp add: is_ideal_ranking_def numeral_3_eq_3)
  have p: "positive_set [1, 0, 1] \<noteq> {}"
    by (simp add: positive_set_101)
  show ?thesis
    using NDCG_NCRR_ideal_order [of "[1, 0, 1]" "[2, 0, 1]" "NDCG_init 2" "NCRR_init 2"] b o r i p
    by simp
qed

text \<open>
  The claim as stated fails in two ways. With graded relevance \<open>[1, 2]\<close> the rank \<open>[0, 1]\<close>
  lists every item with no irrelevant item to misplace, yet its NDCG is below 1. With the
  binary vector \<open>[1, 0]\<close> the rank \<open>[0, 0, 1]\<close> lists every item, relevant first, and repeats
  the relevant one: its NCRR is \<open>3/2\<close>.
\<close>

lemma ndcg_graded: "NDCG_compute (NDCG_init (- 1)) [1, 2] [0, 1]
    = Inr (Fin ((1 + 3 / log 2 3) / (3 + 1 / log 2 3)))"
proof -
  have "3 + 1 / log 2 (3::real) > 0"
    using log_2_3_pos by (simp add: add_pos_pos)
  then have "3 + 1 / log 2 (3::real) \<noteq> 0" by simp
  then show ?thesis
    by (simp add: NDCG_compute_def NDCG_init_def RankingMetric_init_def dcg_score_def
      np_argsort_def bind_res_def np_index_def np_pow2_def np_div_def numeral_2_eq_2)
qed

lemma positive_set_12: "positive_set [1, 2] = {0, 1}"
  by (auto simp: positive_set_def nth_Cons' nat_eq_iff split: if_splits)

lemma positive_set_10: "positive_set [1, 0] = {0}"
  by (auto simp: positive_set_def nth_Cons' nat_eq_iff split: if_splits)

theorem NDCG_NCRR_ideal_order_counterexample:
  "lists_every_item_once [1, 2] [0, 1] \<and> relevant_first [1, 2] [0, 1]
   \<and> positive_set [1, 2] \<noteq> {}
   \<and> NDCG_compute (NDCG_init (- 1)) [1, 2] [0, 1] \<noteq> Inr (Fin 1)
   \<and> set [0, 0, 1] = int ` {..<length [1, 0 :: int]} \<and> relevant_first [1, 0] [0, 0, 1]
   \<and> positive_set [1, 0] \<noteq> {}
   \<and> NCRR_compute (NCRR_init (- 1)) [1, 0] [0, 0, 1] = Fin (3 / 2)"
proof -
  have o: "lists_every_item_once [1, 2] [0, 1]"
    by (simp add: lists_every_item_once_def numeral_2_eq_2)
  have r: "relevant_first [1, 2] [0, 1]"
    unfolding relevant_first_def positive_set_12
    by (auto simp: nth_Cons' less_Suc_eq numeral_2_eq_2)
  have p: "positive_set [1, 2] \<noteq> {}"
    by (simp add: positive_set_12)
  have L: "1 < log 2 (3::real)"
    by simp
  have "(1 + 3 / log 2 3) / (3 + 1 / log 2 (3::real)) < 1"
  proof -
    have "1 / log 2 (3::real) < 1" using L by simp
    moreover have "3 / log 2 (3::real) = 3 * (1 / log 2 3)" by simp
    ultimately have "1 + 3 / log 2 3 < 3 + 1 / log 2 (3::real)" by linarith
    moreover have "0 < 3 + 1 / log 2 (3::real)"
      using log_2_3_pos by (simp add: add_pos_pos)
    ultimately show ?thesis by (simp only: divide_less_eq_1_pos)
  qed
  then have ne: "(1 + 3 / log 2 3) / (3 + 1 / log 2 (3::real)) \<noteq> 1"
    by (rule less_imp_neq)
  have n: "NDCG_compute (NDCG_init (- 1)) [1, 2] [0, 1] \<noteq> Inr (Fin 1)"
    unfolding ndcg_graded sum.inject npfloat.inject by (rule ne)
  have s: "set [0, 0, 1] = int ` {..<length [1, 0 :: int]}"
    by (auto simp: lessThan_Suc)
  have r2: "relevant_first [1, 0] [0, 0, 1]"
    unfolding relevant_first_def positive_set_10
    by (auto simp: nth_Cons' less_Suc_eq numeral_3_eq_3)
  have p2: "positive_set [1, 0] \<noteq> {}"
    by (simp add: positive_set_10)
  have c: "NCRR_compute (NCRR_init (- 1)) [1, 0] [0, 0, 1] = Fin (3 / 2)"
    by code_simp
  show ?thesis using o r p n s r2 p2 c by blast
qed

subsection \<open>Range of the metrics\<close>

lemma inv_discount_nonneg: "0 \<le> inv_discount i"
  using dcg_term_nonneg [of 1 i] by (simp add: inv_discount_def)

lemma inv_discount_antimono: "i \<le> j \<Longrightarrow> inv_discount j \<le> inv_discount i"
proof -
  assume "i \<le> j"
  then have "log 2 (real i + 2) \<le> log 2 (real j + 2)" by simp
  moreover have "0 < log 2 (real i + 2)" using log2_ge_1 [of i] by linarith
  ultimately show ?thesis
    unfolding inv_discount_def by (intro divide_left_mono) (auto intro: mult_pos_pos)
qed

lemma dcg_of_binary:
  assumes "binary rels"
  shows "dcg_of rels = sum inv_discount {i. i < length rels \<and> rels ! i = 1}"
proof -
  have "dcg_of rels = (\<Sum>i<length rels. if rels ! i = 1 then inv_discount i else 0)"
    unfolding dcg_of_def
  proof (rule sum.cong)
    fix i assume "i \<in> {..<length rels}"
    then have "rels ! i = 0 \<or> rels ! i = 1"
      using binary_nth [OF assms] by simp
    then show "(2 ^ nat (rels ! i) - 1) / log 2 (real i + 2)
               = (if rels ! i = 1 then inv_discount i else 0)"
      by (auto simp: inv_discount_def)
  qed simp
  also have "\<dots> = sum inv_discount ({..<length rels} \<inter> {i. rels ! i = 1})"
    by (simp add: sum.inter_restrict)
  also have "{..<length rels} \<inter> {i. rels ! i = 1} = {i. i < length rels \<and> rels ! i = 1}"
    by auto
  finally show ?thesis .
qed

lemma binary_subset: "binary xs \<Longrightarrow> set ys \<subseteq> set xs \<Longrightarrow> binary ys"
  by (auto simp: binary_def)

lemma set_top_k: "set (top_k kk xs) \<subseteq> set xs"
  by (auto simp: top_k_def dest: in_set_takeD)

lemma length_top_k_mono: "length xs \<le> length ys \<Longrightarrow> length (top_k kk xs) \<le> length (top_k kk ys)"
  by (auto simp: top_k_def)

lemma top_k_nth: "i < length (top_k kk xs) \<Longrightarrow> top_k kk xs ! i = xs ! i"
  by (auto simp: top_k_def)

lemma length_top_k_le: "length (top_k kk xs) \<le> length xs"
  by (auto simp: top_k_def)

lemma distinct_top_k: "distinct xs \<Longrightarrow> distinct (top_k kk xs)"
  by (auto simp: top_k_def)

text \<open>The ones of a binary vector sorted descending occupy an initial segment.\<close>

lemma ones_sorted_desc:
  assumes "binary gt"
  shows "{i. i < length gt \<and> rev (sort gt) ! i = 1}
         = {..<card {j. j < length gt \<and> gt ! j = 1}}"
proof -
  let ?rs = "rev (sort gt)"
  let ?T = "{i. i < length gt \<and> ?rs ! i = 1}"
  have len: "length ?rs = length gt" by simp
  have brs: "binary ?rs" using assms by (simp add: binary_def)
  have desc: "?rs ! j \<le> ?rs ! i" if "i < j" "j < length gt" for i j
  proof -
    have "sorted_wrt (\<lambda>a b. a \<ge> b) ?rs"
      by (simp add: sorted_wrt_rev)
    then show ?thesis using that len by (simp add: sorted_wrt_iff_nth_less)
  qed
  have down: "\<forall>i j. i < j \<and> j \<in> ?T \<longrightarrow> i \<in> ?T"
  proof (intro allI impI)
    fix i j assume a: "i < j \<and> j \<in> ?T"
    then have i: "i < length gt" by simp
    have "1 \<le> ?rs ! i" using desc [of i j] a by auto
    moreover have "?rs ! i = 0 \<or> ?rs ! i = 1"
      using binary_nth [OF brs, of i] i by simp
    ultimately show "i \<in> ?T" using i by auto
  qed
  have "?T = {..<card ?T}"
    by (rule downward_closed_initial [OF _ down]) simp
  moreover have "card ?T = card {j. j < length gt \<and> gt ! j = 1}"
  proof -
    have "card ?T = length (filter (\<lambda>x. x = 1) ?rs)"
      using length_filter_conv_card [of "\<lambda>x. x = 1" ?rs] by simp
    also have "\<dots> = size (filter_mset (\<lambda>x. x = 1) (mset ?rs))"
      by (metis mset_filter size_mset)
    also have "\<dots> = size (filter_mset (\<lambda>x. x = 1) (mset gt))"
      by simp
    also have "\<dots> = length (filter (\<lambda>x. x = 1) gt)"
      by (metis mset_filter size_mset)
    also have "\<dots> = card {j. j < length gt \<and> gt ! j = 1}"
      by (simp add: length_filter_conv_card)
    finally show ?thesis .
  qed
  ultimately show ?thesis by simp
qed

lemma ideal_dcg_binary:
  assumes "binary gt"
  shows "dcg_of (top_k kk (rev (sort gt)))
         = sum inv_discount {..<min (card {j. j < length gt \<and> gt ! j = 1})
                                   (length (top_k kk (rev (sort gt))))}"
proof -
  let ?rs = "rev (sort gt)"
  let ?L = "length (top_k kk ?rs)"
  have b: "binary (top_k kk ?rs)"
    by (rule binary_subset [OF assms]) (use set_top_k [of kk ?rs] in auto)
  have L: "?L \<le> length gt"
    using length_top_k_le [of kk ?rs] by simp
  have "{i. i < ?L \<and> top_k kk ?rs ! i = 1} = {i. i < length gt \<and> ?rs ! i = 1} \<inter> {..<?L}"
    using L by (auto simp: top_k_nth)
  also have "\<dots> = {..<min (card {j. j < length gt \<and> gt ! j = 1}) ?L}"
    unfolding ones_sorted_desc [OF assms] by auto
  finally show ?thesis
    unfolding dcg_of_binary [OF b] by simp
qed

lemma dcg_le_ideal_binary:
  assumes "binary gt" "distinct pd" "\<forall>x \<in> set pd. 0 \<le> x \<and> x < int (length gt)"
  shows "dcg_of (map (item_at gt) (top_k kk pd)) \<le> dcg_of (top_k kk (rev (sort gt)))"
proof -
  let ?r = "top_k kk pd"
  let ?rels = "map (item_at gt) ?r"
  let ?S = "{i. i < length ?rels \<and> ?rels ! i = 1}"
  let ?J = "{j. j < length gt \<and> gt ! j = 1}"
  let ?L = "length (top_k kk (rev (sort gt)))"
  have mem: "0 \<le> ?r ! i \<and> ?r ! i < int (length gt)" if "i < length ?r" for i
    using assms(3) set_top_k [of kk pd] nth_mem [OF that] by blast
  have item: "item_at gt (?r ! i) = gt ! nat (?r ! i)" if "i < length ?r" for i
    using mem [OF that] by (simp add: item_at_def norm_index_def)
  have brels: "binary ?rels"
    unfolding binary_def
  proof
    fix g assume "g \<in> set ?rels"
    then obtain i where i: "i < length ?r" "g = item_at gt (?r ! i)"
      by (auto simp: in_set_conv_nth)
    then have "nat (?r ! i) < length gt" using mem [OF i(1)] by linarith
    then show "g = 0 \<or> g = 1"
      using binary_nth [OF assms(1)] i item [OF i(1)] by simp
  qed
  have finJ: "finite ?J" by simp
  have inj: "inj_on (\<lambda>i. nat (?r ! i)) ?S"
  proof (rule inj_onI)
    fix i i' assume a: "i \<in> ?S" "i' \<in> ?S" "nat (?r ! i) = nat (?r ! i')"
    then have l: "i < length ?r" "i' < length ?r" by simp_all
    then have "?r ! i = ?r ! i'" using a(3) mem [OF l(1)] mem [OF l(2)] by linarith
    then show "i = i'"
      using distinct_top_k [OF assms(2), of kk] l by (simp add: nth_eq_iff_index_eq)
  qed
  have img: "(\<lambda>i. nat (?r ! i)) ` ?S \<subseteq> ?J"
  proof
    fix j assume "j \<in> (\<lambda>i. nat (?r ! i)) ` ?S"
    then obtain i where i: "i < length ?r" "item_at gt (?r ! i) = 1" "j = nat (?r ! i)"
      by auto
    then have "j < length gt" using mem [OF i(1)] by linarith
    then show "j \<in> ?J" using i item [OF i(1)] by simp
  qed
  have c1: "card ?S \<le> card ?J"
    by (rule card_inj_on_le [OF inj img finJ])
  have "length pd = card (set pd)" using assms(2) by (simp add: distinct_card)
  also have "\<dots> \<le> card (int ` {..<length gt})"
  proof (intro card_mono subsetI)
    fix x assume "x \<in> set pd"
    then have "x = int (nat x)" "nat x < length gt" using assms(3) by auto
    then show "x \<in> int ` {..<length gt}" by (metis imageI lessThan_iff)
  qed simp
  also have "\<dots> = length gt" by (simp add: card_image)
  finally have "length pd \<le> length (rev (sort gt))" by simp
  then have lenr: "length ?r \<le> ?L" by (rule length_top_k_mono)
  have "?S \<subseteq> {..<length ?r}" by auto
  then have "card ?S \<le> card {..<length ?r}" by (intro card_mono) simp_all
  then have c2: "card ?S \<le> ?L" using lenr by simp
  have "dcg_of ?rels = sum inv_discount ?S"
    by (rule dcg_of_binary [OF brels])
  also have "\<dots> \<le> sum inv_discount {..<min (card ?J) ?L}"
    using c1 c2 inv_discount_antimono inv_discount_nonneg
    by (intro sum_antimono_initial) auto
  also have "\<dots> = dcg_of (top_k kk (rev (sort gt)))"
    by (rule ideal_dcg_binary [OF assms(1), symmetric])
  finally show ?thesis .
qed

lemma in_unit_Fin: "in_unit (Inr (Fin v)) \<longleftrightarrow> 0 \<le> v \<and> v \<le> 1"
  by (simp add: in_unit_def)

lemma in_unit_np_div: "0 \<le> a \<Longrightarrow> a \<le> b \<Longrightarrow> 0 < b \<Longrightarrow> in_unit (Inr (np_div a b))"
  by (simp add: in_unit_def np_div_def)

lemma MRR_unit: "MRR_compute self gt pd = Inl ValueError \<or> in_unit (MRR_compute self gt pd)"
  by (simp add: MRR_compute_def Let_def in_unit_def np_div_def)

lemma harmonic_antimono: "i \<le> j \<Longrightarrow> 1 / (real j + 1) \<le> 1 / (real i + 1)"
  by (simp add: frac_le)

lemma NCRR_unit:
  assumes "distinct pd" "positive_set gt \<noteq> {}"
  shows "in_unit (Inr (NCRR_compute self gt pd))"
proof -
  let ?M = "matched_positions gt pd"
  let ?P = "card (positive_set gt)"
  have fin: "finite ?M" by (simp add: matched_positions_def)
  have "card ?M = card (set pd \<inter> positive_set gt)"
    by (rule card_matched_positions [OF assms(1)])
  also have "\<dots> \<le> ?P"
    by (intro card_mono finite_positive_set) simp
  finally have c: "card ?M \<le> ?P" .
  have le: "(\<Sum>p \<in> ?M. 1 / (real p + 1)) \<le> (\<Sum>i<?P. 1 / (real i + 1))"
    using c harmonic_antimono by (intro sum_antimono_initial [OF fin]) auto
  have nn: "0 \<le> (\<Sum>p \<in> ?M. 1 / (real p + 1))"
    by (rule sum_nonneg) simp
  have "0 < ?P"
    using assms(2) finite_positive_set [of gt] by (simp add: card_gt_0_iff)
  then have pos: "0 < (\<Sum>i<?P. 1 / (real i + 1))"
    by (rule harmonic_pos)
  show ?thesis
    unfolding NCRR_compute_eq by (rule in_unit_np_div [OF nn le pos])
qed

lemma binary_nonneg: "binary gt \<Longrightarrow> \<forall>g \<in> set gt. 0 \<le> g"
  by (auto simp: binary_def)

lemma range_valid:
  assumes "\<forall>x \<in> set pd. 0 \<le> x \<and> x < int (length gt)"
  shows "\<forall>x \<in> set (top_k kk pd). valid_index (length gt) x"
proof
  fix x assume "x \<in> set (top_k kk pd)"
  then have "x \<in> set pd" using set_top_k [of kk pd] by blast
  then have "0 \<le> x \<and> x < int (length gt)" using assms by blast
  then show "valid_index (length gt) x" by (simp add: valid_index_def)
qed

lemma NDCG_unit:
  assumes "binary gt" "item_ranking gt pd" "positive_set gt \<noteq> {}"
  shows "in_unit (NDCG_compute self gt pd)"
proof -
  have d: "distinct pd" and rng: "\<forall>x \<in> set pd. 0 \<le> x \<and> x < int (length gt)"
    using assms(2) by (simp_all add: item_ranking_def)
  let ?dcg = "dcg_of (map (item_at gt) (top_k (k self) pd))"
  let ?idcg = "dcg_of (top_k (k self) (rev (sort gt)))"
  have "\<forall>x \<in> set (top_k (k self) pd). valid_index (length gt) x \<and> 0 \<le> item_at gt x"
    using range_valid [OF rng] binary_nonneg [OF assms(1)] item_at_mem by blast
  then have dcg: "dcg_score gt pd (k self) = Inr ?dcg"
    by (rule dcg_score_valid)
  have idcg: "dcg_score gt (map int (rev (np_argsort gt))) (k self) = Inr ?idcg"
    by (rule dcg_score_ideal [OF argsort_ideal binary_nonneg [OF assms(1)]])
  have le: "?dcg \<le> ?idcg"
    by (rule dcg_le_ideal_binary [OF assms(1) d rng])
  have pos: "0 < ?idcg"
    using ideal_dcg_pos [of gt "k self"] assms(3) positive_set_nonempty_iff [of gt] by auto
  show ?thesis
    unfolding NDCG_compute_def dcg idcg bind_res_Inr
    by (rule in_unit_np_div [OF dcg_of_nonneg le pos])
qed

text \<open>The triple of a binary relevance vector, as counts.\<close>

lemma MeasureAtK_binary:
  assumes "binary gt" "\<forall>x \<in> set pd. 0 \<le> x \<and> x < int (length gt)"
  obtains I where "finite I" "I \<subseteq> {..<length gt}"
    and "I = norm_index (length gt) ` set (top_k (k self) pd)"
    and "MeasureAtK_compute self gt pd
           = Inr (int (card {j \<in> I. gt ! j > 0}),
                  int (card {j. j < length gt \<and> gt ! j > 0}),
                  int (card I))"
proof -
  let ?I = "norm_index (length gt) ` set (top_k (k self) pd)"
  have v: "\<forall>x \<in> set (top_k (k self) pd). valid_index (length gt) x"
    by (rule range_valid [OF assms(2)])
  have sub: "?I \<subseteq> {..<length gt}"
    using v by (auto simp: norm_index_less)
  have "MeasureAtK_compute self gt pd
           = Inr (int (card {j \<in> ?I. gt ! j > 0}),
                  int (card {j. j < length gt \<and> gt ! j > 0}),
                  int (card ?I))"
    using MeasureAtK_compute_valid [OF v] binary_sum_card [OF assms(1) sub]
      binary_sum_list_card [OF assms(1)] by simp
  then show ?thesis using that [of ?I] sub by simp
qed

lemma fmeasure_bound:
  fixes P R :: real
  assumes "0 \<le> P" "P \<le> 1" "0 \<le> R" "R \<le> 1" "0 < P + R"
  shows "0 \<le> 2 * (P * R) / (P + R) \<and> 2 * (P * R) / (P + R) \<le> 1"
proof -
  have "P * R \<le> P * 1" using assms by (intro mult_left_mono) auto
  moreover have "P * R \<le> 1 * R" using assms by (intro mult_right_mono) auto
  ultimately have "2 * (P * R) \<le> P + R" by simp
  then have "2 * (P * R) / (P + R) \<le> 1" using assms(5) by simp
  moreover have "0 \<le> 2 * (P * R) / (P + R)" using assms by simp
  ultimately show ?thesis by simp
qed

lemma Measure_unit:
  assumes "binary gt" "\<forall>x \<in> set pd. 0 \<le> x \<and> x < int (length gt)"
    "positive_set gt \<noteq> {}" "pd \<noteq> []"
  shows "in_unit (Precision_compute self gt pd) \<and> in_unit (Recall_compute self gt pd)
         \<and> in_unit (FMeasure_compute self gt pd)"
proof -
  from MeasureAtK_binary [OF assms(1,2), of self] obtain I where
    I: "finite I" "I \<subseteq> {..<length gt}" "I = norm_index (length gt) ` set (top_k (k self) pd)"
    and m: "MeasureAtK_compute self gt pd
           = Inr (int (card {j \<in> I. gt ! j > 0}),
                  int (card {j. j < length gt \<and> gt ! j > 0}),
                  int (card I))"
    by blast
  define a where "a = card {j \<in> I. gt ! j > 0}"
  define b where "b = card {j. j < length gt \<and> gt ! j > 0}"
  define c where "c = card I"
  have m': "MeasureAtK_compute self gt pd = Inr (int a, int b, int c)"
    using m by (simp add: a_def b_def c_def)
  have ac: "a \<le> c" unfolding a_def c_def using I(1) by (intro card_mono) auto
  have ab: "a \<le> b" unfolding a_def b_def using I(2) by (intro card_mono) auto
  have "I \<noteq> {}" using I(3) top_k_nonempty [OF assms(4), of "k self"] by simp
  then have c: "0 < c" unfolding c_def using I(1) by (simp add: card_gt_0_iff)
  obtain g where "g \<in> set gt" "0 < g"
    using assms(3) positive_set_nonempty_iff [of gt] by blast
  then obtain j where "j < length gt" "gt ! j > 0" by (auto simp: in_set_conv_nth)
  then have "{j. j < length gt \<and> gt ! j > 0} \<noteq> {}" by blast
  then have b: "0 < b" unfolding b_def by (simp add: card_gt_0_iff)
  let ?P = "real a / real c"
  let ?R = "real a / real b"
  have P: "0 \<le> ?P" "?P \<le> 1" using ac c by simp_all
  have R: "0 \<le> ?R" "?R \<le> 1" using ab b by simp_all
  have "Precision_compute self gt pd = Inr (Fin ?P)"
    unfolding Precision_compute_def m' bind_res_Inr using c by (simp add: np_div_def)
  then have prec: "in_unit (Precision_compute self gt pd)"
    using P by (simp only: in_unit_Fin)
  have "Recall_compute self gt pd = Inr (Fin ?R)"
    unfolding Recall_compute_def m' bind_res_Inr using b by (simp add: np_div_def)
  then have rec: "in_unit (Recall_compute self gt pd)"
    using R by (simp only: in_unit_Fin)
  have f: "FMeasure_compute self gt pd
           = Inr (Fin (if ?P + ?R > 0 then 2 * (?P * ?R) / (?P + ?R) else 0))"
    unfolding FMeasure_compute_def m' bind_res_Inr using b c
    by (simp add: np_div_def Let_def)
  have "in_unit (FMeasure_compute self gt pd)"
    unfolding f in_unit_Fin using fmeasure_bound [OF P R] by simp
  then show ?thesis using prec rec by simp
qed

lemma AUC_unit:
  assumes "length gt_pos = length pd_scores" "length gt_neg = length pd_scores"
    "mask_items gt_pos \<noteq> {}" "mask_items gt_neg \<noteq> {}"
  shows "in_unit (AUC_compute self pd_scores gt_pos gt_neg)"
proof -
  let ?N = "mask_items gt_neg" and ?P = "mask_items gt_pos"
  let ?c = "\<lambda>i. real (card {j \<in> ?N. pd_scores ! i > pd_scores ! j}) / real (card ?N)"
  have finN: "finite ?N" and finP: "finite ?P" by (simp_all add: mask_items_def)
  have cN: "0 < card ?N" using assms(4) finN by (simp add: card_gt_0_iff)
  have cP: "0 < card ?P" using assms(3) finP by (simp add: card_gt_0_iff)
  have each: "0 \<le> ?c i \<and> ?c i \<le> 1" for i
  proof -
    have "card {j \<in> ?N. pd_scores ! i > pd_scores ! j} \<le> card ?N"
      using finN by (intro card_mono) auto
    then show ?thesis using cN by simp
  qed
  have "sum ?c ?P \<le> (\<Sum>i \<in> ?P. 1)"
    by (rule sum_mono) (use each in blast)
  then have le: "sum ?c ?P \<le> real (card ?P)" by simp
  have nn: "0 \<le> sum ?c ?P"
    by (rule sum_nonneg) (use each in blast)
  show ?thesis
    unfolding AUC_compute_eq [OF assms] in_unit_Fin using le nn cP by simp
qed

lemma mask_items_binary:
  assumes "positive_set gt \<noteq> {}"
  shows "mask_items gt \<noteq> {}"
proof -
  obtain g where "g \<in> set gt" "0 < g"
    using assms positive_set_nonempty_iff [of gt] by blast
  then obtain j where "j < length gt" "gt ! j > 0" by (auto simp: in_set_conv_nth)
  then have "j \<in> mask_items gt" by (simp add: mask_items_def)
  then show ?thesis by blast
qed

text \<open>
  Claim C9, amended. For a binary relevance vector with at least one positive, a non-empty
  rank of pairwise distinct item ids of \<open>gt_pos\<close>, and for AUC masks of the length of the scores
  with at least one negative, every metric's result lies in the closed interval from 0 to 1:
  NDCG, NCRR, Precision, Recall, F-measure and AUC return such a value, and MRR returns
  one unless it raises for want of a matching item.
\<close>

theorem metrics_in_unit_interval:
  assumes "binary gt_pos" and "item_ranking gt_pos pd_rank"
    and "positive_set gt_pos \<noteq> {}" and "pd_rank \<noteq> []"
    and "length gt_pos = length pd_scores" and "length gt_neg = length pd_scores"
    and "mask_items gt_neg \<noteq> {}"
  shows "in_unit (NDCG_compute s1 gt_pos pd_rank)
     \<and> in_unit (Inr (NCRR_compute s2 gt_pos pd_rank))
     \<and> (MRR_compute s3 gt_pos pd_rank = Inl ValueError \<or> in_unit (MRR_compute s3 gt_pos pd_rank))
     \<and> in_unit (Precision_compute s4 gt_pos pd_rank)
     \<and> in_unit (Recall_compute s5 gt_pos pd_rank)
     \<and> in_unit (FMeasure_compute s6 gt_pos pd_rank)
     \<and> in_unit (AUC_compute s7 pd_scores gt_pos gt_neg)"
proof -
  have d: "distinct pd_rank" and rng: "\<forall>x \<in> set pd_rank. 0 \<le> x \<and> x < int (length gt_pos)"
    using assms(2) by (simp_all add: item_ranking_def)
  have "in_unit (NDCG_compute s1 gt_pos pd_rank)"
    by (rule NDCG_unit [OF assms(1,2,3)])
  moreover have "in_unit (Inr (NCRR_compute s2 gt_pos pd_rank))"
    by (rule NCRR_unit [OF d assms(3)])
  moreover have "MRR_compute s3 gt_pos pd_rank = Inl ValueError
                 \<or> in_unit (MRR_compute s3 gt_pos pd_rank)"
    by (rule MRR_unit)
  moreover have "in_unit (Precision_compute s4 gt_pos pd_rank)"
    "in_unit (Recall_compute s5 gt_pos pd_rank)" "in_unit (FMeasure_compute s6 gt_pos pd_rank)"
    using Measure_unit [OF assms(1) rng assms(3,4)] by simp_all
  moreover have "in_unit (AUC_compute s7 pd_scores gt_pos gt_neg)"
    by (rule AUC_unit [OF assms(5,6) mask_items_binary [OF assms(3)] assms(7)])
  ultimately show ?thesis by simp
qed

theorem metrics_in_unit_interval_witness:
  "binary [1, 0, 1, 0] \<and> item_ranking [1, 0, 1, 0] [1, 0, 3, 2]
   \<and> positive_set [1, 0, 1, 0] \<noteq> {} \<and> mask_items [0, 1, 0, 1] \<noteq> {}
   \<and> in_unit (NDCG_compute (NDCG_init 2) [1, 0, 1, 0] [1, 0, 3, 2])
   \<and> in_unit (Inr (NCRR_compute (NCRR_init 2) [1, 0, 1, 0] [1, 0, 3, 2]))
   \<and> (MRR_compute MRR_init [1, 0, 1, 0] [1, 0, 3, 2] = Inl ValueError
        \<or> in_unit (MRR_compute MRR_init [1, 0, 1, 0] [1, 0, 3, 2]))
   \<and> in_unit (Precision_compute (Precision_init 2) [1, 0, 1, 0] [1, 0, 3, 2])
   \<and> in_unit (Recall_compute (Recall_init 2) [1, 0, 1, 0] [1, 0, 3, 2])
   \<and> in_unit (FMeasure_compute (FMeasure_init 2) [1, 0, 1, 0] [1, 0, 3, 2])
   \<and> in_unit (AUC_compute AUC_init [9 / 10, 1 / 10, 1 / 2, 1 / 5] [1, 0, 1, 0] [0, 1, 0, 1])"
proof -
  have b: "binary [1, 0, 1, 0]"
    by (simp add: binary_def)
  have r: "item_ranking [1, 0, 1, 0] [1, 0, 3, 2]"
    by (simp add: item_ranking_def)
  have "0 \<in> positive_set [1, 0, 1, 0]"
    by (simp add: positive_set_def)
  then have p: "positive_set [1, 0, 1, 0] \<noteq> {}"
    by blast
  have "1 \<in> mask_items [0, 1, 0, 1]"
    by (simp add: mask_items_def)
  then have n: "mask_items [0, 1, 0, 1] \<noteq> {}"
    by blast
  have ne: "[1, 0, 3, 2 :: int] \<noteq> []"
    by simp
  have l1: "length [1, 0, 1, 0 :: int] = length [9 / 10, 1 / 10, 1 / 2, 1 / 5 :: real]"
    by simp
  have l2: "length [0, 1, 0, 1 :: int] = length [9 / 10, 1 / 10, 1 / 2, 1 / 5 :: real]"
    by simp
  show ?thesis
    using metrics_in_unit_interval [OF b r p ne l1 l2 n,
        of "NDCG_init 2" "NCRR_init 2" MRR_init "Precision_init 2" "Recall_init 2"
           "FMeasure_init 2" AUC_init]
      b r p n by blast
qed

text \<open>
  The claim as stated fails: with at least one positive and every denominator nonzero, a
  rank that repeats the positive item gets NCRR \<open>3/2\<close>, and a relevance grade of 2 gives
  precision 2.
\<close>

theorem metrics_in_unit_interval_counterexample:
  "positive_set [1, 0] \<noteq> {} \<and> NCRR_compute (NCRR_init (- 1)) [1, 0] [0, 0] = Fin (3 / 2)
   \<and> \<not> in_unit (Inr (NCRR_compute (NCRR_init (- 1)) [1, 0] [0, 0]))
   \<and> Precision_compute (Precision_init (- 1)) [2, 0] [0] = Inr (Fin 2)
   \<and> \<not> in_unit (Precision_compute (Precision_init (- 1)) [2, 0] [0])"
proof -
  have c: "NCRR_compute (NCRR_init (- 1)) [1, 0] [0, 0] = Fin (3 / 2)"
    by code_simp
  have p: "Precision_compute (Precision_init (- 1)) [2, 0] [0] = Inr (Fin 2)"
    by code_simp
  show ?thesis
    unfolding c p by (simp add: in_unit_def positive_set_10)
qed

end
